theory Spec2Isabelle
  imports Complex_Main "HOL-Library.AList"
begin

section \<open>Board and rules (J\_Hendricks\_MCT\_AI\_Visualizer.py, lines 16--74, 130, 177, 254)\<close>

text \<open>
  The board is the numpy array \<open>np.zeros((ROW_COUNT, COLUMN_COUNT), dtype=int)\<close>: a list
  of rows, row 0 at the bottom, each row a list of cells. Cells are machine integers of which
  the program only ever tests \<open>== 0\<close> and \<open>== piece\<close>; they are modelled as \<open>int\<close>.
  Every read of the engine uses indices below the constants \<open>ROW_COUNT\<close> and
  \<open>COLUMN_COUNT\<close>, so on an array of that shape (\<open>wf_board\<close>) no read is out of range.
\<close>

type_synonym board = "int list list"

definition ROW_COUNT :: nat where "ROW_COUNT = 6"
definition COLUMN_COUNT :: nat where "COLUMN_COUNT = 7"

definition EMPTY :: int where "EMPTY = 0"
definition PLAYER_PIECE :: int where "PLAYER_PIECE = 1"
definition AI_PIECE :: int where "AI_PIECE = 2"

definition wf_board :: "board \<Rightarrow> bool" where
  "wf_board b = (length b = ROW_COUNT \<and> list_all (\<lambda>row. length row = COLUMN_COUNT) b)"

definition create_board :: board where
  "create_board = replicate ROW_COUNT (replicate COLUMN_COUNT 0)"

definition is_valid_location :: "board \<Rightarrow> nat \<Rightarrow> bool" where
  "is_valid_location b col = (b ! (ROW_COUNT - 1) ! col = 0)"

text \<open>\<open>get_next_open_row\<close> falls off its loop, returning \<open>None\<close>, when the column is full.\<close>

definition get_next_open_row :: "board \<Rightarrow> nat \<Rightarrow> nat option" where
  "get_next_open_row b col = List.find (\<lambda>r. b ! r ! col = 0) [0..<ROW_COUNT]"

definition winning_move :: "board \<Rightarrow> int \<Rightarrow> bool" where
  "winning_move b piece =
    (list_ex (\<lambda>c. list_ex (\<lambda>r.
        b ! r ! c = piece \<and> b ! r ! (c+1) = piece \<and> b ! r ! (c+2) = piece \<and> b ! r ! (c+3) = piece)
        [0..<ROW_COUNT]) [0..<COLUMN_COUNT - 3]
     \<or> list_ex (\<lambda>c. list_ex (\<lambda>r.
        b ! r ! c = piece \<and> b ! (r+1) ! c = piece \<and> b ! (r+2) ! c = piece \<and> b ! (r+3) ! c = piece)
        [0..<ROW_COUNT - 3]) [0..<COLUMN_COUNT]
     \<or> list_ex (\<lambda>c. list_ex (\<lambda>r.
        b ! r ! c = piece \<and> b ! (r+1) ! (c+1) = piece \<and> b ! (r+2) ! (c+2) = piece
          \<and> b ! (r+3) ! (c+3) = piece)
        [0..<ROW_COUNT - 3]) [0..<COLUMN_COUNT - 3]
     \<or> list_ex (\<lambda>c. list_ex (\<lambda>r.
        b ! r ! c = piece \<and> b ! (r-1) ! (c+1) = piece \<and> b ! (r-2) ! (c+2) = piece
          \<and> b ! (r-3) ! (c+3) = piece)
        [3..<ROW_COUNT]) [0..<COLUMN_COUNT - 3])"

definition get_valid_locations :: "board \<Rightarrow> nat list" where
  "get_valid_locations b = filter (is_valid_location b) [0..<COLUMN_COUNT]"

definition is_terminal_node :: "board \<Rightarrow> bool" where
  "is_terminal_node b =
    (winning_move b PLAYER_PIECE \<or> winning_move b AI_PIECE \<or> length (get_valid_locations b) = 0)"

text \<open>\<open>np.count_nonzero\<close>.\<close>

definition count_pieces :: "board \<Rightarrow> nat" where
  "count_pieces b = length (filter (\<lambda>x. x \<noteq> 0) (concat b))"

section \<open>Heap of boards, arena of nodes, random source\<close>

text \<open>
  Boards are mutable arrays that the program shares by reference and copies with
  \<open>.copy()\<close>; \<open>Node\<close> objects refer to each other through \<open>parent\<close> and \<open>children\<close>.
  The state therefore holds a heap of boards and an arena of nodes, both addressed by their
  index, and the number of draws taken so far from the random source. The random source is a
  fixed but arbitrary sequence \<open>rnd\<close> of naturals; \<open>random.choice xs\<close> takes the next
  draw modulo the length, and raises \<open>IndexError\<close> on an empty sequence.
\<close>

datatype error = IndexError | ValueError

record node =
  board :: nat
  parent :: "nat option"
  children :: "(nat \<times> nat) list"
  untried_moves :: "nat list"
  visits :: nat
  wins :: nat
  move :: "nat option"
  player :: "int option"

record state =
  boards :: "board list"
  nodes :: "node list"
  tick :: nat

definition choice :: "(nat \<Rightarrow> nat) \<Rightarrow> state \<Rightarrow> 'a list \<Rightarrow> error + ('a \<times> state)" where
  "choice rnd s xs =
    (if xs = [] then Inl IndexError
     else Inr (xs ! (rnd (tick s) mod length xs), s\<lparr>tick := tick s + 1\<rparr>))"

text \<open>\<open>board.copy()\<close> allocates a new array with the same contents.\<close>

definition copy_board :: "state \<Rightarrow> nat \<Rightarrow> nat \<times> state" where
  "copy_board s a = (length (boards s), s\<lparr>boards := boards s @ [boards s ! a]\<rparr>)"

text \<open>
  \<open>board[row][col] = piece\<close> on the array at address \<open>a\<close>. An index out of range raises
  \<open>IndexError\<close>. With \<open>row = None\<close> (the result of \<open>get_next_open_row\<close> on a full
  column) numpy reads \<open>board[None]\<close> as a view with a new leading axis of size 1, so that
  column 0 assigns the piece to the whole array and any other column is out of range.
\<close>

definition drop_piece :: "state \<Rightarrow> nat \<Rightarrow> nat option \<Rightarrow> nat \<Rightarrow> int \<Rightarrow> error + state" where
  "drop_piece s a row col piece =
    (let b = boards s ! a in
     case row of
       Some r \<Rightarrow>
         if r < length b \<and> col < length (b ! r)
         then Inr (s\<lparr>boards := (boards s)[a := b[r := (b ! r)[col := piece]]]\<rparr>)
         else Inl IndexError
     | None \<Rightarrow>
         if col = 0
         then Inr (s\<lparr>boards := (boards s)[a := map (map (\<lambda>_. piece)) b]\<rparr>)
         else Inl IndexError)"

section \<open>The search tree (lines 134--174)\<close>

text \<open>\<open>Node.__init__\<close>: the new object gets the next free index of the arena.\<close>

definition Node :: "state \<Rightarrow> nat \<Rightarrow> nat option \<Rightarrow> nat option \<Rightarrow> int option \<Rightarrow> nat \<times> state" where
  "Node s b par mv pl =
    (length (nodes s),
     s\<lparr>nodes := nodes s @
        [\<lparr>board = b, parent = par, children = [],
          untried_moves = get_valid_locations (boards s ! b),
          visits = 0, wins = 0, move = mv, player = pl\<rparr>]\<rparr>)"

definition is_fully_expanded :: "node \<Rightarrow> bool" where
  "is_fully_expanded n = (length (untried_moves n) = 0)"

text \<open>
  Python's \<open>max(xs, key=...)\<close> keeps the first element and replaces it only by a later one
  whose key is strictly greater; on an empty sequence it raises \<open>ValueError\<close>.
\<close>

fun max_first :: "('a \<Rightarrow> 'a \<Rightarrow> bool) \<Rightarrow> 'a \<Rightarrow> 'a list \<Rightarrow> 'a" where
  "max_first gt m [] = m"
| "max_first gt m (x # xs) = max_first gt (if gt x m then x else m) xs"

definition py_max :: "('a \<Rightarrow> 'a \<Rightarrow> bool) \<Rightarrow> 'a list \<Rightarrow> error + 'a" where
  "py_max gt xs = (case xs of [] \<Rightarrow> Inl ValueError | x # rest \<Rightarrow> Inr (max_first gt x rest))"

text \<open>
  The UCT score is a float: \<open>None\<close> stands for \<open>float('inf')\<close>. The finite score is
  computed by Python in binary64 arithmetic; the model takes the function \<open>uct\<close> that maps
  \<open>child.wins\<close>, \<open>child.visits\<close> and \<open>self.visits\<close> to that float as a parameter, so
  that every theorem below holds whatever the rounding is. \<open>uct_exact\<close> is the expression
  of the source over the reals. \<open>math.log\<close> raises \<open>ValueError\<close> at 0; with
  \<open>self.visits \<ge> 1\<close> the logarithm is not negative and \<open>math.sqrt\<close> is defined.
\<close>

definition UCT_C :: real where "UCT_C = 14 / 10"

definition uct_exact :: "nat \<Rightarrow> nat \<Rightarrow> nat \<Rightarrow> real" where
  "uct_exact w n N = real w / real n + UCT_C * sqrt (ln (real N) / real n)"

definition score_gt :: "real option \<Rightarrow> real option \<Rightarrow> bool" where
  "score_gt a b =
    (case a of
       None \<Rightarrow> (case b of None \<Rightarrow> False | Some y \<Rightarrow> True)
     | Some x \<Rightarrow> (case b of None \<Rightarrow> False | Some y \<Rightarrow> x > y))"

fun uct_choices ::
  "(nat \<Rightarrow> nat \<Rightarrow> nat \<Rightarrow> real) \<Rightarrow> state \<Rightarrow> node \<Rightarrow> (nat \<times> nat) list
    \<Rightarrow> error + (real option \<times> nat) list" where
  "uct_choices uct s self [] = Inr []"
| "uct_choices uct s self ((mv, c) # rest) =
    (let child = nodes s ! c in
     if visits child = 0 then
       (case uct_choices uct s self rest of Inl e \<Rightarrow> Inl e
        | Inr cs \<Rightarrow> Inr ((None, c) # cs))
     else if visits self = 0 then Inl ValueError
     else
       (case uct_choices uct s self rest of Inl e \<Rightarrow> Inl e
        | Inr cs \<Rightarrow> Inr ((Some (uct (wins child) (visits child) (visits self)), c) # cs)))"

definition best_uct_child :: "(nat \<Rightarrow> nat \<Rightarrow> nat \<Rightarrow> real) \<Rightarrow> state \<Rightarrow> nat \<Rightarrow> error + nat" where
  "best_uct_child uct s i =
    (case uct_choices uct s (nodes s ! i) (children (nodes s ! i)) of
       Inl e \<Rightarrow> Inl e
     | Inr choices \<Rightarrow>
        (case py_max (\<lambda>x y. score_gt (fst x) (fst y)) choices of
           Inl e \<Rightarrow> Inl e
         | Inr best \<Rightarrow> Inr (snd best)))"

text \<open>
  \<open>Node.expand\<close>. \<open>untried_moves.remove(move)\<close> removes the first occurrence (the move
  was drawn from that list, so it is there); \<open>children[move] = child\<close> replaces the value of
  an existing key in place and appends a new key at the end.
\<close>

definition expand :: "(nat \<Rightarrow> nat) \<Rightarrow> state \<Rightarrow> nat \<Rightarrow> error + (nat \<times> state)" where
  "expand rnd s i =
    (case choice rnd s (untried_moves (nodes s ! i)) of
       Inl e \<Rightarrow> Inl e
     | Inr (mv, s1) \<Rightarrow>
        (let row = get_next_open_row (boards s1 ! board (nodes s1 ! i)) mv;
             (b_copy, s2) = copy_board s1 (board (nodes s1 ! i));
             next_player_piece =
               (if count_pieces (boards s2 ! b_copy) mod 2 = 0 then AI_PIECE else PLAYER_PIECE)
         in case drop_piece s2 b_copy row mv next_player_piece of
              Inl e \<Rightarrow> Inl e
            | Inr s3 \<Rightarrow>
               (let (child, s4) = Node s3 b_copy (Some i) (Some mv) (Some next_player_piece);
                    self = nodes s4 ! i
                in Inr (child,
                     s4\<lparr>nodes := (nodes s4)
                        [i := self\<lparr>untried_moves := remove1 mv (untried_moves self),
                                   children := AList.update mv child (children self)\<rparr>]\<rparr>))))"

definition best_child_by_visits :: "state \<Rightarrow> nat \<Rightarrow> error + nat" where
  "best_child_by_visits s i =
    py_max (\<lambda>x y. visits (nodes s ! x) > visits (nodes s ! y)) (map snd (children (nodes s ! i)))"

section \<open>Rollout and backpropagation (lines 181--209)\<close>

text \<open>
  The body of \<open>while True\<close> in \<open>simulate_random_playout\<close>, on the working copy at
  address \<open>b\<close>: it either returns the winner (\<open>Inr (Inl w)\<close>, with \<open>None\<close> for a
  draw) or goes round again with the new state and the next mover (\<open>Inr (Inr _)\<close>).
\<close>

definition playout_step ::
  "(nat \<Rightarrow> nat) \<Rightarrow> state \<Rightarrow> nat \<Rightarrow> int \<Rightarrow> error + (int option + (state \<times> int))" where
  "playout_step rnd s b next_player =
    (if winning_move (boards s ! b) PLAYER_PIECE then Inr (Inl (Some PLAYER_PIECE))
     else if winning_move (boards s ! b) AI_PIECE then Inr (Inl (Some AI_PIECE))
     else if length (get_valid_locations (boards s ! b)) = 0 then Inr (Inl None)
     else
       (case choice rnd s (get_valid_locations (boards s ! b)) of
          Inl e \<Rightarrow> Inl e
        | Inr (mv, s1) \<Rightarrow>
           (case drop_piece s1 b (get_next_open_row (boards s1 ! b) mv) mv next_player of
              Inl e \<Rightarrow> Inl e
            | Inr s2 \<Rightarrow>
               Inr (Inr (s2, if next_player = AI_PIECE then PLAYER_PIECE else AI_PIECE)))))"

text \<open>
  The loop has no bound in the source, so it is a partial function: \<open>None\<close> is the run
  that never returns.
\<close>

partial_function (option) playout_loop ::
  "(nat \<Rightarrow> nat) \<Rightarrow> state \<Rightarrow> nat \<Rightarrow> int \<Rightarrow> (error + (int option \<times> state)) option" where
  "playout_loop rnd s b next_player =
    (case playout_step rnd s b next_player of
       Inl e \<Rightarrow> Some (Inl e)
     | Inr (Inl winner) \<Rightarrow> Some (Inr (winner, s))
     | Inr (Inr (s2, next_player2)) \<Rightarrow> playout_loop rnd s2 b next_player2)"

declare playout_loop.simps [code]

definition simulate_random_playout ::
  "(nat \<Rightarrow> nat) \<Rightarrow> state \<Rightarrow> nat \<Rightarrow> int option \<Rightarrow> (error + (int option \<times> state)) option" where
  "simulate_random_playout rnd s a starting_player_piece =
    (let (b, s1) = copy_board s a;
         next_player =
           (case starting_player_piece of
              None \<Rightarrow> if count_pieces (boards s1 ! b) mod 2 = 0 then AI_PIECE else PLAYER_PIECE
            | Some p \<Rightarrow> p)
     in playout_loop rnd s1 b next_player)"

text \<open>The body of the loop of \<open>backpropagate\<close>, on one node.\<close>

definition credit :: "int option \<Rightarrow> node \<Rightarrow> node" where
  "credit winner n =
    (let n1 = n\<lparr>visits := visits n + 1\<rparr>
     in if winner \<noteq> None \<and> player n1 = winner then n1\<lparr>wins := wins n1 + 1\<rparr> else n1)"

partial_function (option) backpropagate ::
  "state \<Rightarrow> nat option \<Rightarrow> int option \<Rightarrow> state option" where
  "backpropagate s node winner =
    (case node of
       None \<Rightarrow> Some s
     | Some i \<Rightarrow>
        backpropagate (s\<lparr>nodes := (nodes s)[i := credit winner (nodes s ! i)]\<rparr>)
          (parent (nodes s ! i)) winner)"

declare backpropagate.simps [code]

section \<open>The search (lines 212--250)\<close>

partial_function (option) select_loop ::
  "(nat \<Rightarrow> nat \<Rightarrow> nat \<Rightarrow> real) \<Rightarrow> state \<Rightarrow> nat \<Rightarrow> (error + nat) option" where
  "select_loop uct s i =
    (if \<not> is_terminal_node (boards s ! board (nodes s ! i)) \<and> is_fully_expanded (nodes s ! i)
     then (case best_uct_child uct s i of
             Inl e \<Rightarrow> Some (Inl e)
           | Inr j \<Rightarrow> select_loop uct s j)
     else Some (Inr i))"

declare select_loop.simps [code]

text \<open>One pass of the body of \<open>for _ in range(iterations)\<close>, from the root node \<open>rt\<close>.\<close>

definition mcts_iteration ::
  "(nat \<Rightarrow> nat) \<Rightarrow> (nat \<Rightarrow> nat \<Rightarrow> nat \<Rightarrow> real) \<Rightarrow> nat \<Rightarrow> state \<Rightarrow> (error + state) option" where
  "mcts_iteration rnd uct rt s =
    (case select_loop uct s rt of
       None \<Rightarrow> None
     | Some (Inl e) \<Rightarrow> Some (Inl e)
     | Some (Inr sel) \<Rightarrow>
        (case (if \<not> is_terminal_node (boards s ! board (nodes s ! sel))
               then (if \<not> is_fully_expanded (nodes s ! sel) then expand rnd s sel
                     else Inr (sel, s))
               else Inr (sel, s)) of
           Inl e \<Rightarrow> Some (Inl e)
         | Inr (nd, s1) \<Rightarrow>
            (let next_player =
                   (if count_pieces (boards s1 ! board (nodes s1 ! nd)) mod 2 = 0
                    then AI_PIECE else PLAYER_PIECE)
             in case simulate_random_playout rnd s1 (board (nodes s1 ! nd)) (Some next_player) of
                  None \<Rightarrow> None
                | Some (Inl e) \<Rightarrow> Some (Inl e)
                | Some (Inr (winner, s2)) \<Rightarrow>
                   (case backpropagate s2 (Some nd) winner of
                      None \<Rightarrow> None
                    | Some s3 \<Rightarrow> Some (Inr s3)))))"

fun mcts_loop ::
  "(nat \<Rightarrow> nat) \<Rightarrow> (nat \<Rightarrow> nat \<Rightarrow> nat \<Rightarrow> real) \<Rightarrow> nat \<Rightarrow> nat \<Rightarrow> state \<Rightarrow> (error + state) option" where
  "mcts_loop rnd uct rt 0 s = Some (Inr s)"
| "mcts_loop rnd uct rt (Suc n) s =
    (case mcts_iteration rnd uct rt s of
       None \<Rightarrow> None
     | Some (Inl e) \<Rightarrow> Some (Inl e)
     | Some (Inr s') \<Rightarrow> mcts_loop rnd uct rt n s')"

text \<open>
  The statistics of one column. \<open>child.wins / child.visits\<close> is Python's true division of
  two integers: a float, the exact quotient rounded to binary64. The rounding is the
  parameter \<open>rd\<close> of the model, as the score is; what a theorem needs of it is among
  its hypotheses.
\<close>

record stat =
  st_visits :: nat
  win_rate :: real
  visits_ratio :: real

definition max_visits_of :: "state \<Rightarrow> nat \<Rightarrow> error + nat" where
  "max_visits_of s i =
    py_max (\<lambda>x y. x > y) (map (\<lambda>(col, c). visits (nodes s ! c)) (children (nodes s ! i)))"

definition stat_of :: "(real \<Rightarrow> real) \<Rightarrow> nat \<Rightarrow> node \<Rightarrow> stat" where
  "stat_of rd max_visits child =
    \<lparr>st_visits = visits child,
     win_rate = (if visits child > 0 then rd (real (wins child) / real (visits child)) else 0),
     visits_ratio =
       (if max_visits > 0 then rd (real (visits child) / real max_visits) else 0)\<rparr>"

text \<open>
  The tree after the loop: the state in which \<open>MCTS_Search\<close> makes its choice. The new tree
  starts from an empty arena, its root is node 0, on a copy of the caller's board at
  address \<open>root_board\<close> of the heap \<open>bs\<close>.
\<close>

definition mcts_tree ::
  "(nat \<Rightarrow> nat) \<Rightarrow> (nat \<Rightarrow> nat \<Rightarrow> nat \<Rightarrow> real) \<Rightarrow> board list \<Rightarrow> nat \<Rightarrow> nat
    \<Rightarrow> (error + (nat \<times> state)) option" where
  "mcts_tree rnd uct bs root_board iterations =
    (let s0 = \<lparr>boards = bs, nodes = [], tick = 0\<rparr>;
         (b, s1) = copy_board s0 root_board;
         (rt, s2) = Node s1 b None None None
     in case mcts_loop rnd uct rt iterations s2 of
          None \<Rightarrow> None
        | Some (Inl e) \<Rightarrow> Some (Inl e)
        | Some (Inr s3) \<Rightarrow> Some (Inr (rt, s3)))"

definition MCTS_Search ::
  "(nat \<Rightarrow> nat) \<Rightarrow> (nat \<Rightarrow> nat \<Rightarrow> nat \<Rightarrow> real) \<Rightarrow> (real \<Rightarrow> real) \<Rightarrow> board list \<Rightarrow> nat
    \<Rightarrow> nat \<Rightarrow> (error + ((nat option \<times> (nat \<times> stat) list) \<times> state)) option" where
  "MCTS_Search rnd uct rd bs root_board iterations =
    (case mcts_tree rnd uct bs root_board iterations of
       None \<Rightarrow> None
     | Some (Inl e) \<Rightarrow> Some (Inl e)
     | Some (Inr (rt, s)) \<Rightarrow>
        if length (children (nodes s ! rt)) = 0 then
          (case choice rnd s (get_valid_locations (boards s ! root_board)) of
             Inl e \<Rightarrow> Some (Inl e)
           | Inr (col, s') \<Rightarrow> Some (Inr ((Some col, []), s')))
        else
          (case best_child_by_visits s rt of
             Inl e \<Rightarrow> Some (Inl e)
           | Inr best_child \<Rightarrow>
              (case max_visits_of s rt of
                 Inl e \<Rightarrow> Some (Inl e)
               | Inr max_visits \<Rightarrow>
                  Some (Inr ((move (nodes s ! best_child),
                              map (\<lambda>(col, c). (col, stat_of rd max_visits (nodes s ! c)))
                                (children (nodes s ! rt))), s)))))"

section \<open>Specification vocabulary\<close>

text \<open>
  A board is gravity-packed when no column has an empty cell below a filled one: above an
  empty cell every cell is empty.
\<close>

definition gravity :: "board \<Rightarrow> bool" where
  "gravity b = list_all (\<lambda>c. list_all (\<lambda>r. b ! r ! c = 0 \<longrightarrow> b ! (r + 1) ! c = 0)
      [0..<ROW_COUNT - 1]) [0..<COLUMN_COUNT]"

text \<open>The number of empty cells, and one assignment \<open>board[r][c] = p\<close>.\<close>

definition zeros :: "board \<Rightarrow> nat" where
  "zeros b = length (filter (\<lambda>x. x = 0) (concat b))"

definition set_cell :: "board \<Rightarrow> nat \<Rightarrow> nat \<Rightarrow> int \<Rightarrow> board" where
  "set_cell b r c p = b[r := (b ! r)[c := p]]"

text \<open>
  Four in a row, from the words of the specification: \<open>cell\<close> reads a cell of the
  6 by 7 grid and is \<open>None\<close> off the grid; \<open>four_from\<close> holds when the four cells
  starting at \<open>(r, c)\<close> and stepping by the direction \<open>d\<close> all lie on the grid and hold
  the piece. The directions are horizontal \<open>(0, 1)\<close>, vertical \<open>(1, 0)\<close>, ascending
  diagonal \<open>(1, 1)\<close> and descending diagonal \<open>(-1, 1)\<close>.
\<close>

definition cell :: "board \<Rightarrow> int \<Rightarrow> int \<Rightarrow> int option" where
  "cell b r c =
    (if 0 \<le> r \<and> r < int ROW_COUNT \<and> 0 \<le> c \<and> c < int COLUMN_COUNT
     then Some (b ! nat r ! nat c) else None)"

definition four_from :: "board \<Rightarrow> int \<Rightarrow> int \<Rightarrow> int \<Rightarrow> int \<times> int \<Rightarrow> bool" where
  "four_from b piece r c d =
    list_all (\<lambda>k. cell b (r + k * fst d) (c + k * snd d) = Some piece) [0, 1, 2, 3]"

definition four_in_a_row :: "board \<Rightarrow> int \<Rightarrow> int \<times> int \<Rightarrow> bool" where
  "four_in_a_row b piece d =
    list_ex (\<lambda>r. list_ex (\<lambda>c. four_from b piece (int r) (int c) d) [0..<COLUMN_COUNT])
      [0..<ROW_COUNT]"

text \<open>The example boards of the win detection: one per orientation, and a three in a row.\<close>

definition board_horizontal :: board where
  "board_horizontal =
    [[1,1,1,1,0,0,0], [0,0,0,0,0,0,0], [0,0,0,0,0,0,0],
     [0,0,0,0,0,0,0], [0,0,0,0,0,0,0], [0,0,0,0,0,0,0]]"

definition board_vertical :: board where
  "board_vertical =
    [[0,0,1,0,0,0,0], [0,0,1,0,0,0,0], [0,0,1,0,0,0,0],
     [0,0,1,0,0,0,0], [0,0,0,0,0,0,0], [0,0,0,0,0,0,0]]"

definition board_ascending :: board where
  "board_ascending =
    [[1,0,0,0,0,0,0], [0,1,0,0,0,0,0], [0,0,1,0,0,0,0],
     [0,0,0,1,0,0,0], [0,0,0,0,0,0,0], [0,0,0,0,0,0,0]]"

definition board_descending :: board where
  "board_descending =
    [[0,0,0,1,0,0,0], [0,0,1,0,0,0,0], [0,1,0,0,0,0,0],
     [1,0,0,0,0,0,0], [0,0,0,0,0,0,0], [0,0,0,0,0,0,0]]"

definition board_three :: board where
  "board_three =
    [[1,1,1,0,1,1,1], [1,2,2,0,0,0,0], [1,2,1,0,0,0,0],
     [0,0,0,0,0,0,0], [0,0,0,0,0,0,0], [0,0,0,0,0,0,0]]"

section \<open>Tree vocabulary\<close>

text \<open>
  The chain of parents that \<open>backpropagate\<close> walks from node \<open>i\<close>: the node, its
  parent, and so on up to the node that has none. Each parent is an older object than its
  child (\<open>parents_below\<close>), which is what the guard \<open>p < i\<close> records.
\<close>

function path :: "node list \<Rightarrow> nat \<Rightarrow> nat list" where
  "path ns i =
    i # (case parent (ns ! i) of None \<Rightarrow> [] | Some p \<Rightarrow> if p < i then path ns p else [])"
  by pat_completeness auto

termination
  by (relation "measure (\<lambda>(ns, i). i)") auto

declare path.simps [simp del]

definition parents_below :: "node list \<Rightarrow> bool" where
  "parents_below ns =
    list_all (\<lambda>i. case parent (ns ! i) of None \<Rightarrow> True | Some p \<Rightarrow> p < i) [0..<length ns]"

text \<open>
  The arena after every node of \<open>P\<close> was credited once.
\<close>

definition credit_all :: "int option \<Rightarrow> nat list \<Rightarrow> node list \<Rightarrow> node list" where
  "credit_all winner P ns =
    map (\<lambda>j. if j \<in> set P then credit winner (ns ! j) else ns ! j) [0..<length ns]"

text \<open>
  \<open>node.board\<close>: the board a node refers to.
\<close>

definition bof :: "state \<Rightarrow> nat \<Rightarrow> board" where
  "bof s i = boards s ! board (nodes s ! i)"

text \<open>
  The invariant of the search tree. \<open>tree_struct\<close>: node 0 is the root, without parent or
  moving piece; every other node has an older parent that lists it among its children; every
  entry \<open>(m, c)\<close> of a node's \<open>children\<close> is a node \<open>c\<close> whose parent is that node and
  whose \<open>move\<close> is \<open>m\<close>. \<open>moves_ok\<close>: the board of every node is a well-shaped board
  of the heap, and its untried moves together with the keys of its children are the legal
  columns of that board, without repetition. \<open>counts_ok X\<close>: wins never exceed visits, and
  outside \<open>X\<close> every node but the root, and every node with a child, was visited.
\<close>

definition tree_struct :: "node list \<Rightarrow> bool" where
  "tree_struct ns \<longleftrightarrow>
    ns \<noteq> [] \<and> parent (ns ! 0) = None \<and> player (ns ! 0) = None \<and>
    (\<forall>i<length ns. 0 < i \<longrightarrow>
        (\<exists>p<i. parent (ns ! i) = Some p \<and> i \<in> snd ` set (children (ns ! p)))) \<and>
    (\<forall>i<length ns. \<forall>(m, c)\<in>set (children (ns ! i)).
        c < length ns \<and> parent (ns ! c) = Some i \<and> move (ns ! c) = Some m) \<and>
    (\<forall>i<length ns. distinct (map snd (children (ns ! i))))"

definition moves_ok :: "state \<Rightarrow> bool" where
  "moves_ok s \<longleftrightarrow>
    (\<forall>i<length (nodes s).
        board (nodes s ! i) < length (boards s) \<and> wf_board (bof s i) \<and>
        distinct (untried_moves (nodes s ! i) @ map fst (children (nodes s ! i))) \<and>
        set (untried_moves (nodes s ! i)) \<union> fst ` set (children (nodes s ! i))
          = set (get_valid_locations (bof s i)))"

definition counts_ok :: "nat set \<Rightarrow> node list \<Rightarrow> bool" where
  "counts_ok X ns \<longleftrightarrow>
    (\<forall>i<length ns. wins (ns ! i) \<le> visits (ns ! i) \<and>
        (i \<notin> X \<longrightarrow> (0 < i \<longrightarrow> 1 \<le> visits (ns ! i)) \<and>
                    (children (ns ! i) \<noteq> [] \<longrightarrow> 1 \<le> visits (ns ! i))))"

definition tree_inv :: "state \<Rightarrow> bool" where
  "tree_inv s \<longleftrightarrow> tree_struct (nodes s) \<and> moves_ok s \<and> counts_ok {} (nodes s)"

text \<open>
  The two objects that \<open>Node.expand\<close> leaves behind: the expanded node and its new child.
\<close>

definition expanded_node :: "node \<Rightarrow> nat \<Rightarrow> nat \<Rightarrow> node" where
  "expanded_node n mv c =
    n\<lparr>untried_moves := remove1 mv (untried_moves n), children := children n @ [(mv, c)]\<rparr>"

definition child_node :: "nat \<Rightarrow> nat \<Rightarrow> board \<Rightarrow> nat \<Rightarrow> int \<Rightarrow> node" where
  "child_node b i bd mv pc =
    \<lparr>board = b, parent = Some i, children = [], untried_moves = get_valid_locations bd,
     visits = 0, wins = 0, move = Some mv, player = Some pc\<rparr>"

text \<open>
  The sum of the visit counts of the root's children.
\<close>

definition root_children_visits :: "node list \<Rightarrow> nat" where
  "root_children_visits ns = sum_list (map (\<lambda>mc. visits (ns ! snd mc)) (children (ns ! 0)))"

definition node_gravity :: "state \<Rightarrow> bool" where
  "node_gravity s \<longleftrightarrow> (\<forall>i<length (nodes s). gravity (bof s i))"

text \<open>
  What one iteration, and what \<open>n\<close> iterations, establish from a tree that satisfies the
  invariant.
\<close>

definition iter_post :: "state \<Rightarrow> state \<Rightarrow> bool" where
  "iter_post s s' \<longleftrightarrow>
    tree_inv s' \<and> visits (nodes s' ! 0) = visits (nodes s ! 0) + 1
    \<and> (\<exists>xs. boards s' = boards s @ xs \<and> (node_gravity s \<longrightarrow> list_all gravity xs))
    \<and> board (nodes s' ! 0) = board (nodes s ! 0)
    \<and> (\<not> is_terminal_node (bof s 0) \<longrightarrow>
          root_children_visits (nodes s') = root_children_visits (nodes s) + 1)
    \<and> (is_terminal_node (bof s 0) \<longrightarrow>
          children (nodes s' ! 0) = children (nodes s ! 0) \<and> tick s' = tick s)
    \<and> (node_gravity s \<longrightarrow> node_gravity s')"

definition loop_post :: "nat \<Rightarrow> state \<Rightarrow> state \<Rightarrow> bool" where
  "loop_post n s s' \<longleftrightarrow>
    tree_inv s' \<and> visits (nodes s' ! 0) = visits (nodes s ! 0) + n
    \<and> (\<exists>xs. boards s' = boards s @ xs \<and> (node_gravity s \<longrightarrow> list_all gravity xs))
    \<and> board (nodes s' ! 0) = board (nodes s ! 0)
    \<and> (\<not> is_terminal_node (bof s 0) \<longrightarrow>
          root_children_visits (nodes s') = root_children_visits (nodes s) + n)
    \<and> (is_terminal_node (bof s 0) \<longrightarrow>
          children (nodes s' ! 0) = children (nodes s ! 0) \<and> tick s' = tick s)
    \<and> (node_gravity s \<longrightarrow> node_gravity s')"

text \<open>
  The state in which the loop of \<open>MCTS_Search\<close> starts: the heap with a copy of the
  caller's board, and the root alone in the arena.
\<close>

definition root_node :: "board list \<Rightarrow> nat \<Rightarrow> node" where
  "root_node bs a =
    \<lparr>board = length bs, parent = None, children = [],
     untried_moves = get_valid_locations (bs ! a), visits = 0, wins = 0,
     move = None, player = None\<rparr>"

definition init_state :: "board list \<Rightarrow> nat \<Rightarrow> state" where
  "init_state bs a = \<lparr>boards = bs @ [bs ! a], nodes = [root_node bs a], tick = 0\<rparr>"

text \<open>
  Example inputs: a position late in the game with two open columns, a full board, a
  sequence of draws, a score (the exploitation term alone), a rounding (to the nearest
  multiple of \<open>2 ^ -53\<close>, the spacing of binary64 between 1/2 and 1), the result of the
  search on them, and a small tree for backpropagation.
\<close>

definition board_late :: board where
  "board_late =
    [[1,2,1,2,1,2,2], [2,1,2,1,2,1,1], [1,2,1,2,1,2,0],
     [1,2,1,2,1,0,0], [2,1,2,1,2,0,0], [2,1,2,1,2,0,0]]"

definition board_full :: board where
  "board_full =
    [[1,1,2,2,1,1,2], [2,2,1,1,2,2,1], [1,1,2,2,1,1,2],
     [2,2,1,1,2,2,1], [1,1,2,2,1,1,2], [2,2,1,1,2,2,1]]"

definition example_draws :: "nat \<Rightarrow> nat" where
  "example_draws k = 3 * k + 1"

definition example_score :: "nat \<Rightarrow> nat \<Rightarrow> nat \<Rightarrow> real" where
  "example_score w n N = real w / real n"

definition example_round :: "real \<Rightarrow> real" where
  "example_round x = real_of_int (round (x * 2 ^ 53)) / 2 ^ 53"

definition example_result :: "(nat option \<times> (nat \<times> stat) list) \<times> state" where
  "example_result =
    (case MCTS_Search example_draws example_score example_round [board_late] 0 4 of
       Some (Inr r) \<Rightarrow> r
     | _ \<Rightarrow> ((None, []), \<lparr>boards = [], nodes = [], tick = 0\<rparr>))"

definition example_tree :: state where
  "example_tree =
    \<lparr>boards = [create_board],
     nodes =
      [\<lparr>board = 0, parent = None, children = [(0, 1), (1, 3)], untried_moves = [2,3,4,5,6],
        visits = 0, wins = 0, move = None, player = None\<rparr>,
       \<lparr>board = 0, parent = Some 0, children = [(0, 2)], untried_moves = [1,2,3,4,5,6],
        visits = 0, wins = 0, move = Some 0, player = Some AI_PIECE\<rparr>,
       \<lparr>board = 0, parent = Some 1, children = [], untried_moves = [0,1,2,3,4,5,6],
        visits = 0, wins = 0, move = Some 0, player = Some PLAYER_PIECE\<rparr>,
       \<lparr>board = 0, parent = Some 0, children = [], untried_moves = [0,1,2,3,4,5,6],
        visits = 0, wins = 0, move = Some 1, player = Some AI_PIECE\<rparr>],
     tick = 0\<rparr>"

text \<open>
  One expansion of the root of the example, and one step of a rollout on the root's copy
  of the example board.
\<close>

definition example_expand :: "nat \<times> state" where
  "example_expand =
    (case expand example_draws (init_state [board_late] 0) 0 of
       Inr r \<Rightarrow> r
     | Inl e \<Rightarrow> (0, init_state [board_late] 0))"

definition example_step :: "state \<times> int" where
  "example_step =
    (case playout_step example_draws (init_state [board_late] 0) 1 PLAYER_PIECE of
       Inr (Inr r) \<Rightarrow> r
     | _ \<Rightarrow> (init_state [board_late] 0, 0))"

section \<open>Board lemmas\<close>

lemma wf_board_row: "wf_board b \<Longrightarrow> r < ROW_COUNT \<Longrightarrow> length (b ! r) = COLUMN_COUNT"
  by (simp add: wf_board_def list_all_length)

lemma wf_board_length: "wf_board b \<Longrightarrow> length b = ROW_COUNT"
  by (simp add: wf_board_def)

lemma wf_set_cell: "wf_board b \<Longrightarrow> wf_board (set_cell b r c p)"
  by (cases "r < length b") (auto simp: wf_board_def set_cell_def list_all_length nth_list_update)

lemma set_cell_nth:
  "wf_board b \<Longrightarrow> r < ROW_COUNT \<Longrightarrow> c < COLUMN_COUNT \<Longrightarrow> r' < ROW_COUNT \<Longrightarrow> c' < COLUMN_COUNT \<Longrightarrow>
   set_cell b r c p ! r' ! c' = (if r' = r \<and> c' = c then p else b ! r' ! c')"
  by (auto simp: set_cell_def wf_board_def list_all_length nth_list_update)

lemma valid_locations_set:
  "set (get_valid_locations b) = {c. c < COLUMN_COUNT \<and> b ! (ROW_COUNT - 1) ! c = 0}"
  by (auto simp: get_valid_locations_def is_valid_location_def)

lemma valid_locations_distinct: "distinct (get_valid_locations b)"
  by (simp add: get_valid_locations_def)

lemma next_open_row_Some:
  assumes "b ! (ROW_COUNT - 1) ! col = 0"
  shows "\<exists>r. get_next_open_row b col = Some r \<and> r < ROW_COUNT \<and> b ! r ! col = 0
            \<and> (\<forall>r'<r. b ! r' ! col \<noteq> 0)"
proof -
  have "get_next_open_row b col \<noteq> None"
  proof -
    have "ROW_COUNT - 1 \<in> set [0..<ROW_COUNT]" by (simp add: ROW_COUNT_def)
    with assms show ?thesis unfolding get_next_open_row_def find_None_iff by blast
  qed
  then obtain r where r: "get_next_open_row b col = Some r" by auto
  then have "r < ROW_COUNT \<and> b ! r ! col = 0 \<and> (\<forall>r'<r. b ! r' ! col \<noteq> 0)"
    unfolding get_next_open_row_def find_Some_iff by auto
  with r show ?thesis by blast
qed

lemma filter_zero_update:
  assumes "c < length xs" "xs ! c = (0::int)" "p \<noteq> 0"
  shows "Suc (length (filter (\<lambda>x. x = 0) (xs[c := p]))) = length (filter (\<lambda>x. x = 0) xs)"
proof -
  have a: "xs = take c xs @ xs ! c # drop (Suc c) xs"
    using assms(1) by (simp add: id_take_nth_drop)
  have b: "xs[c := p] = take c xs @ p # drop (Suc c) xs"
    using assms(1) by (simp add: upd_conv_take_nth_drop)
  have "length (filter (\<lambda>x. x = 0) xs)
      = length (filter (\<lambda>x. x = 0) (take c xs @ xs ! c # drop (Suc c) xs))"
    using a by simp
  then show ?thesis using assms(2,3) by (simp add: b)
qed

lemma zeros_set_cell:
  assumes "r < length b" "c < length (b ! r)" "b ! r ! c = 0" "p \<noteq> 0"
  shows "Suc (zeros (set_cell b r c p)) = zeros b"
proof -
  have a: "b = take r b @ b ! r # drop (Suc r) b"
    using assms(1) by (simp add: id_take_nth_drop)
  have b': "set_cell b r c p = take r b @ (b ! r)[c := p] # drop (Suc r) b"
    using assms(1) by (simp add: set_cell_def upd_conv_take_nth_drop)
  have "zeros b = length (filter (\<lambda>x. x = 0) (concat (take r b @ b ! r # drop (Suc r) b)))"
    using a by (simp add: zeros_def)
  also have "\<dots> = length (filter (\<lambda>x. x = 0) (concat (take r b)))
      + length (filter (\<lambda>x. x = 0) (b ! r))
      + length (filter (\<lambda>x. x = 0) (concat (drop (Suc r) b)))"
    by simp
  finally have z: "zeros b = length (filter (\<lambda>x. x = 0) (concat (take r b)))
      + length (filter (\<lambda>x. x = 0) (b ! r))
      + length (filter (\<lambda>x. x = 0) (concat (drop (Suc r) b)))" .
  have "zeros (set_cell b r c p) = length (filter (\<lambda>x. x = 0) (concat (take r b)))
      + length (filter (\<lambda>x. x = 0) ((b ! r)[c := p]))
      + length (filter (\<lambda>x. x = 0) (concat (drop (Suc r) b)))"
    by (simp add: b' zeros_def)
  with z filter_zero_update[OF assms(2,3,4)] show ?thesis by simp
qed

lemma gravity_set_cell:
  assumes wf: "wf_board b" and g: "gravity b" and c: "col < COLUMN_COUNT"
    and r: "r < ROW_COUNT" and z: "b ! r ! col = 0" and low: "\<forall>r'<r. b ! r' ! col \<noteq> 0"
  shows "gravity (set_cell b r col p)"
proof -
  have G: "\<And>c' r'. c' < COLUMN_COUNT \<Longrightarrow> r' < ROW_COUNT - 1 \<Longrightarrow> b ! r' ! c' = 0 \<Longrightarrow> b ! (r' + 1) ! c' = 0"
    using g by (auto simp: gravity_def list_all_iff)
  have "set_cell b r col p ! (r' + 1) ! c' = 0"
    if h: "c' < COLUMN_COUNT" "r' < ROW_COUNT - 1" "set_cell b r col p ! r' ! c' = 0" for c' r'
  proof -
    have r'1: "r' < ROW_COUNT" "r' + 1 < ROW_COUNT" using h(2) by auto
    have e1: "set_cell b r col p ! r' ! c' = (if r' = r \<and> c' = col then p else b ! r' ! c')"
      using set_cell_nth[OF wf r c r'1(1) h(1)] .
    have e2: "set_cell b r col p ! (r' + 1) ! c' = (if r' + 1 = r \<and> c' = col then p else b ! (r' + 1) ! c')"
      using set_cell_nth[OF wf r c r'1(2) h(1)] .
    show ?thesis
    proof (cases "r' + 1 = r \<and> c' = col")
      case True
      then have "b ! r' ! c' \<noteq> 0" using low by auto
      moreover have "set_cell b r col p ! r' ! c' = b ! r' ! c'" using e1 True by auto
      ultimately show ?thesis using h(3) by simp
    next
      case False
      show ?thesis
      proof (cases "r' = r \<and> c' = col")
        case True
        then have "b ! (r' + 1) ! c' = 0" using G[OF h(1,2)] z by simp
        then show ?thesis using e2 False by auto
      next
        case F2: False
        then have "b ! r' ! c' = 0" using e1 h(3) by (auto split: if_splits)
        then have "b ! (r' + 1) ! c' = 0" using G[OF h(1,2)] by simp
        then show ?thesis using e2 False by auto
      qed
    qed
  qed
  then show ?thesis by (auto simp: gravity_def list_all_iff)
qed

section \<open>Win detection\<close>

lemma cell_Some:
  "cell b r c = Some p \<longleftrightarrow>
    0 \<le> r \<and> r < int ROW_COUNT \<and> 0 \<le> c \<and> c < int COLUMN_COUNT \<and> b ! nat r ! nat c = p"
  by (auto simp: cell_def)

lemma four_from_horizontal:
  "four_from b p (int r) (int c) (0, 1) \<longleftrightarrow>
    (r < ROW_COUNT \<and> c + 3 < COLUMN_COUNT) \<and>
    (b ! r ! c = p \<and> b ! r ! (c + 1) = p \<and> b ! r ! (c + 2) = p \<and> b ! r ! (c + 3) = p)"
  by (auto simp: four_from_def cell_Some nat_add_distrib)

lemma four_from_vertical:
  "four_from b p (int r) (int c) (1, 0) \<longleftrightarrow>
    (r + 3 < ROW_COUNT \<and> c < COLUMN_COUNT) \<and>
    (b ! r ! c = p \<and> b ! (r + 1) ! c = p \<and> b ! (r + 2) ! c = p \<and> b ! (r + 3) ! c = p)"
  by (auto simp: four_from_def cell_Some nat_add_distrib)

lemma four_from_diag_up:
  "four_from b p (int r) (int c) (1, 1) \<longleftrightarrow>
    (r + 3 < ROW_COUNT \<and> c + 3 < COLUMN_COUNT) \<and>
    (b ! r ! c = p \<and> b ! (r + 1) ! (c + 1) = p \<and> b ! (r + 2) ! (c + 2) = p
      \<and> b ! (r + 3) ! (c + 3) = p)"
  by (auto simp: four_from_def cell_Some nat_add_distrib)

lemma four_from_diag_down:
  "four_from b p (int r) (int c) (- 1, 1) \<longleftrightarrow>
    (3 \<le> r \<and> r < ROW_COUNT \<and> c + 3 < COLUMN_COUNT) \<and>
    (b ! r ! c = p \<and> b ! (r - 1) ! (c + 1) = p \<and> b ! (r - 2) ! (c + 2) = p
      \<and> b ! (r - 3) ! (c + 3) = p)"
  by (auto simp: four_from_def cell_Some nat_add_distrib nat_diff_distrib)

lemma bex_swap:
  assumes "\<And>r c. (c \<in> S \<and> r \<in> T) = (r \<in> T' \<and> c \<in> S' \<and> G r c)"
  shows "(\<exists>c\<in>S. \<exists>r\<in>T. Q r c) = (\<exists>r\<in>T'. \<exists>c\<in>S'. G r c \<and> Q r c)"
proof
  assume "\<exists>c\<in>S. \<exists>r\<in>T. Q r c"
  then obtain c r where "c \<in> S \<and> r \<in> T" "Q r c" by blast
  then have "r \<in> T'" "c \<in> S'" "G r c \<and> Q r c" using assms by blast+
  then show "\<exists>r\<in>T'. \<exists>c\<in>S'. G r c \<and> Q r c" by blast
next
  assume "\<exists>r\<in>T'. \<exists>c\<in>S'. G r c \<and> Q r c"
  then obtain r c where "r \<in> T' \<and> c \<in> S' \<and> G r c" "Q r c" by blast
  then have "c \<in> S" "r \<in> T" "Q r c" using assms by blast+
  then show "\<exists>c\<in>S. \<exists>r\<in>T. Q r c" by blast
qed

text \<open>
  C5. \<open>winning_move board piece\<close> is true exactly when the board holds four consecutive
  cells of the piece, all on the grid, in at least one of the four orientations: each
  orientation alone makes it true, and it is false when no orientation has a run of four
  (every run of the piece has length at most three).
\<close>

theorem winning_move_four_in_a_row:
  "winning_move b piece \<longleftrightarrow>
    four_in_a_row b piece (0, 1) \<or> four_in_a_row b piece (1, 0)
    \<or> four_in_a_row b piece (1, 1) \<or> four_in_a_row b piece (- 1, 1)"
proof -
  have h: "list_ex (\<lambda>c. list_ex (\<lambda>r.
        b ! r ! c = piece \<and> b ! r ! (c+1) = piece \<and> b ! r ! (c+2) = piece \<and> b ! r ! (c+3) = piece)
        [0..<ROW_COUNT]) [0..<COLUMN_COUNT - 3] = four_in_a_row b piece (0, 1)"
    unfolding four_in_a_row_def four_from_horizontal list_ex_iff
    by (rule bex_swap) auto
  have v: "list_ex (\<lambda>c. list_ex (\<lambda>r.
        b ! r ! c = piece \<and> b ! (r+1) ! c = piece \<and> b ! (r+2) ! c = piece \<and> b ! (r+3) ! c = piece)
        [0..<ROW_COUNT - 3]) [0..<COLUMN_COUNT] = four_in_a_row b piece (1, 0)"
    unfolding four_in_a_row_def four_from_vertical list_ex_iff
    by (rule bex_swap) auto
  have u: "list_ex (\<lambda>c. list_ex (\<lambda>r.
        b ! r ! c = piece \<and> b ! (r+1) ! (c+1) = piece \<and> b ! (r+2) ! (c+2) = piece
          \<and> b ! (r+3) ! (c+3) = piece)
        [0..<ROW_COUNT - 3]) [0..<COLUMN_COUNT - 3] = four_in_a_row b piece (1, 1)"
    unfolding four_in_a_row_def four_from_diag_up list_ex_iff
    by (rule bex_swap) auto
  have d: "list_ex (\<lambda>c. list_ex (\<lambda>r.
        b ! r ! c = piece \<and> b ! (r-1) ! (c+1) = piece \<and> b ! (r-2) ! (c+2) = piece
          \<and> b ! (r-3) ! (c+3) = piece)
        [3..<ROW_COUNT]) [0..<COLUMN_COUNT - 3] = four_in_a_row b piece (- 1, 1)"
    unfolding four_in_a_row_def four_from_diag_down list_ex_iff
    by (rule bex_swap) auto
  show ?thesis unfolding winning_move_def h v u d by simp
qed

theorem winning_move_four_in_a_row_witness:
  "winning_move board_horizontal 1 \<and> four_in_a_row board_horizontal 1 (0, 1)
   \<and> winning_move board_vertical 1 \<and> four_in_a_row board_vertical 1 (1, 0)
   \<and> winning_move board_ascending 1 \<and> four_in_a_row board_ascending 1 (1, 1)
   \<and> winning_move board_descending 1 \<and> four_in_a_row board_descending 1 (- 1, 1)
   \<and> \<not> winning_move board_three 1 \<and> \<not> four_in_a_row board_three 1 (0, 1)
   \<and> \<not> four_in_a_row board_three 1 (1, 0) \<and> \<not> four_in_a_row board_three 1 (1, 1)
   \<and> \<not> four_in_a_row board_three 1 (- 1, 1)"
  using winning_move_four_in_a_row [of board_horizontal 1]
    winning_move_four_in_a_row [of board_three 1]
  by code_simp

section \<open>Backpropagation along the parent chain\<close>

lemma parents_belowD:
  "parents_below ns \<Longrightarrow> i < length ns \<Longrightarrow> parent (ns ! i) = Some p \<Longrightarrow> p < i"
  by (auto simp: parents_below_def list_all_iff split: option.splits)

lemma parents_below_cong:
  "parents_below ns \<Longrightarrow> length ns' = length ns \<Longrightarrow>
   (\<And>j. j < length ns \<Longrightarrow> parent (ns' ! j) = parent (ns ! j)) \<Longrightarrow> parents_below ns'"
  by (simp add: parents_below_def list_all_iff)

lemma path_le: "j \<in> set (path ns i) \<Longrightarrow> j \<le> i"
proof (induction ns i rule: path.induct)
  case (1 ns i)
  from 1(2) have "j = i \<or> (\<exists>p. parent (ns ! i) = Some p \<and> p < i \<and> j \<in> set (path ns p))"
    by (subst (asm) path.simps) (auto split: option.splits if_splits)
  then show ?case using 1(1) by fastforce
qed

lemma path_head: "i \<in> set (path ns i)"
  by (subst path.simps) simp

lemma path_cong:
  "(\<And>j. j \<le> i \<Longrightarrow> parent (ns' ! j) = parent (ns ! j)) \<Longrightarrow> path ns' i = path ns i"
proof (induction ns i rule: path.induct)
  case (1 ns i)
  have pi: "parent (ns' ! i) = parent (ns ! i)" using 1(2) by simp
  show ?case
  proof (cases "parent (ns ! i)")
    case None
    then show ?thesis using pi by (simp add: path.simps[of ns i] path.simps[of ns' i])
  next
    case (Some p)
    show ?thesis
    proof (cases "p < i")
      case True
      have "path ns' p = path ns p"
        using 1(1)[OF Some True] 1(2) True by simp
      then show ?thesis using pi Some True by (simp add: path.simps[of ns i] path.simps[of ns' i])
    next
      case False
      then show ?thesis using pi Some by (simp add: path.simps[of ns i] path.simps[of ns' i])
    qed
  qed
qed

lemma credit_fields [simp]:
  "board (credit w n) = board n" "parent (credit w n) = parent n"
  "children (credit w n) = children n" "untried_moves (credit w n) = untried_moves n"
  "move (credit w n) = move n" "player (credit w n) = player n"
  "visits (credit w n) = visits n + 1"
  "wins (credit w n) = wins n + (if w \<noteq> None \<and> player n = w then 1 else 0)"
  by (simp_all add: credit_def Let_def)

lemma length_credit_all [simp]: "length (credit_all w P ns) = length ns"
  by (simp add: credit_all_def)

lemma nth_credit_all:
  "j < length ns \<Longrightarrow>
   credit_all w P ns ! j = (if j \<in> set P then credit w (ns ! j) else ns ! j)"
  by (simp add: credit_all_def)

lemma backpropagate_path:
  "parents_below (nodes s) \<Longrightarrow> i < length (nodes s) \<Longrightarrow>
   backpropagate s (Some i) w = Some (s\<lparr>nodes := credit_all w (path (nodes s) i) (nodes s)\<rparr>)"
proof (induction i arbitrary: s rule: less_induct)
  case (less i)
  let ?ns = "nodes s"
  let ?s1 = "s\<lparr>nodes := ?ns[i := credit w (?ns ! i)]\<rparr>"
  have step: "backpropagate s (Some i) w = backpropagate ?s1 (parent (?ns ! i)) w"
    by (subst backpropagate.simps) simp
  show ?case
  proof (cases "parent (?ns ! i)")
    case None
    have "path ?ns i = [i]" using None by (simp add: path.simps[of ?ns i])
    moreover have "?ns[i := credit w (?ns ! i)] = credit_all w [i] ?ns"
      using less.prems(2) by (auto simp: list_eq_iff_nth_eq nth_credit_all nth_list_update)
    ultimately show ?thesis using step None by (simp add: backpropagate.simps)
  next
    case (Some p)
    have pi: "p < i" using parents_belowD[OF less.prems(1,2) Some] .
    have par: "\<And>j. j < length ?ns \<Longrightarrow> parent (nodes ?s1 ! j) = parent (?ns ! j)"
      using less.prems(2) by (simp add: nth_list_update)
    have pb: "parents_below (nodes ?s1)"
      using parents_below_cong[OF less.prems(1), of "nodes ?s1"] par by simp
    have pl: "p < length (nodes ?s1)" using pi less.prems(2) by simp
    have IH: "backpropagate ?s1 (Some p) w
        = Some (?s1\<lparr>nodes := credit_all w (path (nodes ?s1) p) (nodes ?s1)\<rparr>)"
      using less.IH[OF pi pb pl] .
    have pe: "path (nodes ?s1) p = path ?ns p"
      by (rule path_cong) (use pi less.prems(2) in \<open>simp add: nth_list_update\<close>)
    have pth: "path ?ns i = i # path ?ns p" using Some pi by (simp add: path.simps[of ?ns i])
    have notin: "i \<notin> set (path ?ns p)" using path_le[of i ?ns p] pi by auto
    have "credit_all w (path ?ns p) (nodes ?s1) = credit_all w (path ?ns i) ?ns"
      using less.prems(2) notin
      by (auto simp: list_eq_iff_nth_eq nth_credit_all nth_list_update pth)
    then show ?thesis using step Some IH pe by simp
  qed
qed

section \<open>Expansion\<close>

lemma update_fresh: "k \<notin> fst ` set al \<Longrightarrow> AList.update k v al = al @ [(k, v)]"
  by (induction al) auto

lemma valid_location_facts:
  "mv \<in> set (get_valid_locations b) \<Longrightarrow> mv < COLUMN_COUNT \<and> b ! (ROW_COUNT - 1) ! mv = 0"
  by (simp add: valid_locations_set)

lemma choice_nonempty:
  "xs \<noteq> [] \<Longrightarrow> choice rnd s xs = Inr (xs ! (rnd (tick s) mod length xs), s\<lparr>tick := tick s + 1\<rparr>)"
  by (simp add: choice_def)

lemma choice_mem: "xs \<noteq> [] \<Longrightarrow> xs ! (rnd t mod length xs) \<in> set xs"
  by simp

lemma drop_piece_Some:
  "r < length (boards s ! a) \<Longrightarrow> col < length (boards s ! a ! r) \<Longrightarrow>
   drop_piece s a (Some r) col p = Inr (s\<lparr>boards := (boards s)[a := set_cell (boards s ! a) r col p]\<rparr>)"
  by (simp add: drop_piece_def set_cell_def Let_def)

lemma expand_result:
  fixes rnd :: "nat \<Rightarrow> nat"
  assumes mo: "moves_ok s" and i: "i < length (nodes s)"
    and un: "untried_moves (nodes s ! i) \<noteq> []"
  defines "mv \<equiv> untried_moves (nodes s ! i) ! (rnd (tick s) mod length (untried_moves (nodes s ! i)))"
  shows "\<exists>r pc. r < ROW_COUNT \<and> get_next_open_row (bof s i) mv = Some r
      \<and> bof s i ! r ! mv = 0 \<and> (\<forall>r'<r. bof s i ! r' ! mv \<noteq> 0)
      \<and> mv \<in> set (untried_moves (nodes s ! i)) \<and> mv < COLUMN_COUNT
      \<and> (pc = AI_PIECE \<or> pc = PLAYER_PIECE)
      \<and> expand rnd s i = Inr (length (nodes s),
          \<lparr>boards = boards s @ [set_cell (bof s i) r mv pc],
           nodes = (nodes s)[i := expanded_node (nodes s ! i) mv (length (nodes s))]
              @ [child_node (length (boards s)) i (set_cell (bof s i) r mv pc) mv pc],
           tick = tick s + 1\<rparr>)"
proof -
  let ?n = "nodes s ! i"
  let ?b = "bof s i"
  have ok: "board ?n < length (boards s)" "wf_board ?b"
    "distinct (untried_moves ?n @ map fst (children ?n))"
    "set (untried_moves ?n) \<union> fst ` set (children ?n) = set (get_valid_locations ?b)"
    using mo i by (auto simp: moves_ok_def)
  have mvin: "mv \<in> set (untried_moves ?n)" unfolding mv_def using un by simp
  then have "mv \<in> set (get_valid_locations ?b)" using ok(4) by auto
  then have mvc: "mv < COLUMN_COUNT" and top: "?b ! (ROW_COUNT - 1) ! mv = 0"
    using valid_location_facts by auto
  obtain r where r: "get_next_open_row ?b mv = Some r" "r < ROW_COUNT" "?b ! r ! mv = 0"
    "\<forall>r'<r. ?b ! r' ! mv \<noteq> 0"
    using next_open_row_Some[OF top] by blast
  have fresh: "mv \<notin> fst ` set (children ?n)" using ok(3) mvin by auto
  define pc where "pc = (if count_pieces ?b mod 2 = 0 then AI_PIECE else PLAYER_PIECE)"
  have rl: "r < length ?b" "mv < length (?b ! r)"
    using ok(2) r(2) mvc by (simp_all add: wf_board_length wf_board_row)
  have bb: "boards s ! board ?n = ?b" by (simp add: bof_def)
  have "expand rnd s i = Inr (length (nodes s),
          \<lparr>boards = boards s @ [set_cell ?b r mv pc],
           nodes = (nodes s)[i := expanded_node ?n mv (length (nodes s))]
              @ [child_node (length (boards s)) i (set_cell ?b r mv pc) mv pc],
           tick = tick s + 1\<rparr>)"
    unfolding expand_def choice_nonempty[OF un] mv_def[symmetric]
    using r(1) rl i fresh ok(1) bb pc_def
    by (cases s)
      (simp add: copy_board_def Let_def nth_append drop_piece_Some Node_def
        update_fresh expanded_node_def child_node_def nth_list_update list_update_append1)
  moreover have "pc = AI_PIECE \<or> pc = PLAYER_PIECE" by (simp add: pc_def)
  ultimately show ?thesis using r mvin mvc by blast
qed

section \<open>Rollout\<close>

lemma terminal_iff:
  "is_terminal_node b \<longleftrightarrow>
    winning_move b PLAYER_PIECE \<or> winning_move b AI_PIECE \<or> get_valid_locations b = []"
  by (simp add: is_terminal_node_def)

lemma playout_step_terminal:
  "is_terminal_node (boards s ! b) \<Longrightarrow> \<exists>w. playout_step rnd s b np = Inr (Inl w)"
  by (auto simp: playout_step_def terminal_iff)

lemma playout_step_move:
  assumes wf: "wf_board (boards s ! b)" and nt: "\<not> is_terminal_node (boards s ! b)"
  shows "\<exists>mv r. mv < COLUMN_COUNT \<and> r < ROW_COUNT
      \<and> get_next_open_row (boards s ! b) mv = Some r
      \<and> boards s ! b ! r ! mv = 0 \<and> (\<forall>r'<r. boards s ! b ! r' ! mv \<noteq> 0)
      \<and> playout_step rnd s b np =
          Inr (Inr (s\<lparr>tick := tick s + 1,
                      boards := (boards s)[b := set_cell (boards s ! b) r mv np]\<rparr>,
                    if np = AI_PIECE then PLAYER_PIECE else AI_PIECE))"
proof -
  let ?b = "boards s ! b"
  let ?vl = "get_valid_locations ?b"
  have ne: "?vl \<noteq> []" and nw: "\<not> winning_move ?b PLAYER_PIECE" "\<not> winning_move ?b AI_PIECE"
    using nt by (auto simp: terminal_iff)
  define mv where "mv = ?vl ! (rnd (tick s) mod length ?vl)"
  have "mv \<in> set ?vl" unfolding mv_def using ne by simp
  then have mvc: "mv < COLUMN_COUNT" and top: "?b ! (ROW_COUNT - 1) ! mv = 0"
    using valid_location_facts by auto
  obtain r where r: "get_next_open_row ?b mv = Some r" "r < ROW_COUNT" "?b ! r ! mv = 0"
    "\<forall>r'<r. ?b ! r' ! mv \<noteq> 0"
    using next_open_row_Some[OF top] by blast
  have rl: "r < length ?b" "mv < length (?b ! r)"
    using wf r(2) mvc by (simp_all add: wf_board_length wf_board_row)
  have "playout_step rnd s b np =
          Inr (Inr (s\<lparr>tick := tick s + 1,
                      boards := (boards s)[b := set_cell ?b r mv np]\<rparr>,
                    if np = AI_PIECE then PLAYER_PIECE else AI_PIECE))"
    unfolding playout_step_def choice_nonempty[OF ne] mv_def[symmetric]
    using ne nw r(1) rl by (simp add: drop_piece_Some)
  then show ?thesis using mvc r by blast
qed

lemma playout_loop_terminal:
  "is_terminal_node (boards s ! b) \<Longrightarrow> \<exists>w. playout_loop rnd s b np = Some (Inr (w, s))"
  using playout_step_terminal[of s b rnd np]
  by (subst playout_loop.simps) auto

lemma playout_loop_returns:
  assumes "b < length (boards s)" and "wf_board (boards s ! b)" and "np \<noteq> 0"
  shows "\<exists>w t bd. playout_loop rnd s b np
            = Some (Inr (w, s\<lparr>tick := t, boards := (boards s)[b := bd]\<rparr>))
          \<and> wf_board bd \<and> (gravity (boards s ! b) \<longrightarrow> gravity bd)"
  using assms
proof (induction "zeros (boards s ! b)" arbitrary: s np rule: less_induct)
  case less
  let ?b = "boards s ! b"
  show ?case
  proof (cases "is_terminal_node ?b")
    case True
    then obtain w where "playout_loop rnd s b np = Some (Inr (w, s))"
      using playout_loop_terminal by blast
    moreover have "s = s\<lparr>tick := tick s, boards := (boards s)[b := ?b]\<rparr>" by simp
    ultimately show ?thesis using less.prems(2) by metis
  next
    case False
    obtain mv r where st: "mv < COLUMN_COUNT" "r < ROW_COUNT"
      "get_next_open_row ?b mv = Some r" "?b ! r ! mv = 0" "\<forall>r'<r. ?b ! r' ! mv \<noteq> 0"
      "playout_step rnd s b np =
          Inr (Inr (s\<lparr>tick := tick s + 1, boards := (boards s)[b := set_cell ?b r mv np]\<rparr>,
                    if np = AI_PIECE then PLAYER_PIECE else AI_PIECE))"
      using playout_step_move[OF less.prems(2) False, of rnd np] by blast
    let ?s2 = "s\<lparr>tick := tick s + 1, boards := (boards s)[b := set_cell ?b r mv np]\<rparr>"
    let ?np2 = "if np = AI_PIECE then PLAYER_PIECE else AI_PIECE"
    have b2: "boards ?s2 ! b = set_cell ?b r mv np" using less.prems(1) by simp
    have rl: "r < length ?b" "mv < length (?b ! r)"
      using less.prems(2) st(1,2) by (simp_all add: wf_board_length wf_board_row)
    have z: "zeros (boards ?s2 ! b) < zeros ?b"
      using zeros_set_cell[OF rl st(4) less.prems(3)] b2 by simp
    have wf2: "wf_board (boards ?s2 ! b)" using wf_set_cell[OF less.prems(2)] b2 by simp
    have np2: "?np2 \<noteq> 0" by (simp add: PLAYER_PIECE_def AI_PIECE_def)
    have bl: "b < length (boards ?s2)" using less.prems(1) by simp
    obtain w t bd where IH: "playout_loop rnd ?s2 b ?np2
            = Some (Inr (w, ?s2\<lparr>tick := t, boards := (boards ?s2)[b := bd]\<rparr>))"
        "wf_board bd" "gravity (boards ?s2 ! b) \<longrightarrow> gravity bd"
      using less.hyps[OF z bl wf2 np2] by blast
    have g: "gravity ?b \<longrightarrow> gravity (boards ?s2 ! b)"
      using gravity_set_cell[OF less.prems(2) _ st(1,2,4,5)] b2 by simp
    have "playout_loop rnd s b np = playout_loop rnd ?s2 b ?np2"
      by (subst playout_loop.simps) (simp add: st(6))
    moreover have "?s2\<lparr>tick := t, boards := (boards ?s2)[b := bd]\<rparr>
        = s\<lparr>tick := t, boards := (boards s)[b := bd]\<rparr>" by simp
    ultimately show ?thesis using IH g by metis
  qed
qed

lemma simulate_returns:
  assumes "a < length (boards s)" and "wf_board (boards s ! a)" and "p \<noteq> 0"
  shows "\<exists>w t bd. simulate_random_playout rnd s a (Some p)
            = Some (Inr (w, s\<lparr>tick := t, boards := boards s @ [bd]\<rparr>))
          \<and> wf_board bd \<and> (gravity (boards s ! a) \<longrightarrow> gravity bd)"
proof -
  let ?s1 = "s\<lparr>boards := boards s @ [boards s ! a]\<rparr>"
  let ?b = "length (boards s)"
  have sim: "simulate_random_playout rnd s a (Some p) = playout_loop rnd ?s1 ?b p"
    by (simp add: simulate_random_playout_def copy_board_def)
  have "?b < length (boards ?s1)" "wf_board (boards ?s1 ! ?b)"
    using assms(2) by simp_all
  from playout_loop_returns[OF this assms(3), of rnd]
  obtain w t bd where "playout_loop rnd ?s1 ?b p
            = Some (Inr (w, ?s1\<lparr>tick := t, boards := (boards ?s1)[?b := bd]\<rparr>))"
     "wf_board bd" "gravity (boards ?s1 ! ?b) \<longrightarrow> gravity bd" by blast
  moreover have "?s1\<lparr>tick := t, boards := (boards ?s1)[?b := bd]\<rparr>
      = s\<lparr>tick := t, boards := boards s @ [bd]\<rparr>" by simp
  ultimately show ?thesis using sim by (metis nth_append_length state.select_convs(1) state.surjective state.update_convs(1))
qed

lemma simulate_terminal:
  assumes "is_terminal_node (boards s ! a)"
  shows "\<exists>w. simulate_random_playout rnd s a (Some p)
            = Some (Inr (w, s\<lparr>boards := boards s @ [boards s ! a]\<rparr>))"
proof -
  let ?s1 = "s\<lparr>boards := boards s @ [boards s ! a]\<rparr>"
  have "is_terminal_node (boards ?s1 ! length (boards s))" using assms by simp
  from playout_loop_terminal[OF this, of rnd p] show ?thesis
    by (simp add: simulate_random_playout_def copy_board_def)
qed

section \<open>Selection\<close>

lemma max_first_mem: "max_first gt m xs \<in> set (m # xs)"
  by (induction xs arbitrary: m) auto

lemma py_max_mem: "xs \<noteq> [] \<Longrightarrow> \<exists>x. py_max gt xs = Inr x \<and> x \<in> set xs"
  using max_first_mem[of gt] by (cases xs) (auto simp: py_max_def)

lemma uct_choices_ok:
  "visits self \<noteq> 0 \<or> (\<forall>(m, c)\<in>set cs. visits (nodes s ! c) = 0) \<Longrightarrow>
   \<exists>ch. uct_choices uct s self cs = Inr ch \<and> map snd ch = map snd cs"
proof (induction cs)
  case Nil
  then show ?case by simp
next
  case (Cons a cs)
  obtain mv c where a: "a = (mv, c)" by (cases a)
  from Cons.prems have "visits self \<noteq> 0 \<or> (\<forall>(m, c)\<in>set cs. visits (nodes s ! c) = 0)" by auto
  from Cons.IH[OF this] obtain ch where ch: "uct_choices uct s self cs = Inr ch"
    "map snd ch = map snd cs" by blast
  show ?case using Cons.prems ch by (auto simp: a Let_def)
qed

lemma best_uct_child_ok:
  assumes "children (nodes s ! i) \<noteq> []" and "visits (nodes s ! i) \<noteq> 0"
  shows "\<exists>c. best_uct_child uct s i = Inr c \<and> c \<in> snd ` set (children (nodes s ! i))"
proof -
  obtain ch where ch: "uct_choices uct s (nodes s ! i) (children (nodes s ! i)) = Inr ch"
    "map snd ch = map snd (children (nodes s ! i))"
    using uct_choices_ok[of "nodes s ! i" "children (nodes s ! i)" s uct] assms(2) by blast
  then have "ch \<noteq> []" using assms(1) by auto
  from py_max_mem[OF this, of "\<lambda>x y. score_gt (fst x) (fst y)"]
  obtain best where b: "py_max (\<lambda>x y. score_gt (fst x) (fst y)) ch = Inr best" "best \<in> set ch"
    by blast
  have "snd best \<in> set (map snd ch)" using b(2) by auto
  then have "snd best \<in> snd ` set (children (nodes s ! i))" using ch(2) by auto
  then show ?thesis using ch(1) b(1) by (simp add: best_uct_child_def)
qed

lemma tree_invD:
  assumes "tree_inv s" and "i < length (nodes s)"
  shows "board (nodes s ! i) < length (boards s)" and "wf_board (bof s i)"
    and "distinct (untried_moves (nodes s ! i) @ map fst (children (nodes s ! i)))"
    and "set (untried_moves (nodes s ! i)) \<union> fst ` set (children (nodes s ! i))
          = set (get_valid_locations (bof s i))"
    and "wins (nodes s ! i) \<le> visits (nodes s ! i)"
    and "0 < i \<Longrightarrow> 1 \<le> visits (nodes s ! i)"
    and "children (nodes s ! i) \<noteq> [] \<Longrightarrow> 1 \<le> visits (nodes s ! i)"
    and "distinct (map snd (children (nodes s ! i)))"
  using assms by (auto simp: tree_inv_def moves_ok_def counts_ok_def tree_struct_def)

lemma tree_struct_child:
  assumes "tree_struct ns" and "i < length ns" and "(m, c) \<in> set (children (ns ! i))"
  shows "c < length ns" and "parent (ns ! c) = Some i" and "move (ns ! c) = Some m"
    and "i < c"
proof -
  show 1: "c < length ns" and 2: "parent (ns ! c) = Some i" and "move (ns ! c) = Some m"
    using assms by (auto simp: tree_struct_def)
  have "parent (ns ! 0) = None" using assms(1) by (simp add: tree_struct_def)
  then have "c \<noteq> 0" using 2 by (cases "c = 0") auto
  then obtain p where "p < c" "parent (ns ! c) = Some p"
    using assms(1) 1 by (auto simp: tree_struct_def)
  then show "i < c" using 2 by simp
qed

lemma tree_struct_parents_below: "tree_struct ns \<Longrightarrow> parents_below ns"
  unfolding parents_below_def list_all_iff tree_struct_def
  by (fastforce split: option.splits)

lemma select_loop_returns:
  assumes "tree_inv s" and "i < length (nodes s)"
  shows "\<exists>j. select_loop uct s i = Some (Inr j) \<and> j < length (nodes s) \<and> i \<le> j
      \<and> (is_terminal_node (bof s j) \<or> untried_moves (nodes s ! j) \<noteq> [])
      \<and> (is_terminal_node (bof s i) \<longrightarrow> j = i)"
  using assms(2)
proof (induction "length (nodes s) - i" arbitrary: i rule: less_induct)
  case less
  show ?case
  proof (cases "\<not> is_terminal_node (bof s i) \<and> is_fully_expanded (nodes s ! i)")
    case False
    then have "select_loop uct s i = Some (Inr i)"
      by (subst select_loop.simps) (auto simp: bof_def)
    then show ?thesis using False less.prems by (auto simp: is_fully_expanded_def)
  next
    case True
    then have un: "untried_moves (nodes s ! i) = []" by (simp add: is_fully_expanded_def)
    have "get_valid_locations (bof s i) \<noteq> []" using True by (simp add: terminal_iff)
    then have ch: "children (nodes s ! i) \<noteq> []"
      using tree_invD(4)[OF assms(1) less.prems] un by auto
    then have "visits (nodes s ! i) \<noteq> 0" using tree_invD(7)[OF assms(1) less.prems] by simp
    from best_uct_child_ok[OF ch this, of uct]
    obtain c where c: "best_uct_child uct s i = Inr c" "c \<in> snd ` set (children (nodes s ! i))"
      by blast
    then obtain m where "(m, c) \<in> set (children (nodes s ! i))" by auto
    then have cl: "c < length (nodes s)" "i < c"
      using tree_struct_child[of "nodes s" i m c] assms(1) less.prems
      by (auto simp: tree_inv_def)
    then have "length (nodes s) - c < length (nodes s) - i" by arith
    from less.hyps[OF this cl(1)]
    obtain j where j: "select_loop uct s c = Some (Inr j)" "j < length (nodes s)" "c \<le> j"
      "is_terminal_node (bof s j) \<or> untried_moves (nodes s ! j) \<noteq> []" by blast
    have "select_loop uct s i = select_loop uct s c"
      using True c(1) by (subst select_loop.simps) (simp add: bof_def)
    then show ?thesis using j cl(2) True by auto
  qed
qed

section \<open>The tree invariant is kept\<close>

lemma expanded_node_fields [simp]:
  "board (expanded_node n mv c) = board n" "parent (expanded_node n mv c) = parent n"
  "children (expanded_node n mv c) = children n @ [(mv, c)]"
  "untried_moves (expanded_node n mv c) = remove1 mv (untried_moves n)"
  "move (expanded_node n mv c) = move n" "player (expanded_node n mv c) = player n"
  "visits (expanded_node n mv c) = visits n" "wins (expanded_node n mv c) = wins n"
  by (simp_all add: expanded_node_def)

lemma child_node_fields [simp]:
  "board (child_node b i bd mv pc) = b" "parent (child_node b i bd mv pc) = Some i"
  "children (child_node b i bd mv pc) = []"
  "untried_moves (child_node b i bd mv pc) = get_valid_locations bd"
  "move (child_node b i bd mv pc) = Some mv" "player (child_node b i bd mv pc) = Some pc"
  "visits (child_node b i bd mv pc) = 0" "wins (child_node b i bd mv pc) = 0"
  by (simp_all add: child_node_def)

lemma nth_expanded:
  "i < length ns \<Longrightarrow> j < length ns \<Longrightarrow> (ns[i := e] @ [ch]) ! j = (if j = i then e else ns ! j)"
  by (simp add: nth_append nth_list_update)

lemma nth_expanded_last: "(ns[i := e] @ [ch]) ! length ns = ch"
  by (simp add: nth_append)

lemma tree_struct_expand:
  assumes ts: "tree_struct ns" and i: "i < length ns"
  shows "tree_struct (ns[i := expanded_node (ns ! i) mv (length ns)] @ [child_node b i bd mv pc])"
    (is "tree_struct ?ns'")
proof -
  let ?c = "length ns"
  have len: "length ?ns' = Suc ?c" by simp
  have old: "parent (?ns' ! j) = parent (ns ! j)" "player (?ns' ! j) = player (ns ! j)"
    "move (?ns' ! j) = move (ns ! j)"
    "children (?ns' ! j) = (if j = i then children (ns ! i) @ [(mv, ?c)] else children (ns ! j))"
    if "j < ?c" for j
    using that i by (simp_all add: nth_expanded)
  have new: "?ns' ! ?c = child_node b i bd mv pc" by (rule nth_expanded_last)
  have ne: "ns \<noteq> []" and p0: "parent (ns ! 0) = None" and pl0: "player (ns ! 0) = None"
    and up: "\<And>j. j < ?c \<Longrightarrow> 0 < j \<Longrightarrow>
        \<exists>p<j. parent (ns ! j) = Some p \<and> j \<in> snd ` set (children (ns ! p))"
    and dn: "\<And>j m c. j < ?c \<Longrightarrow> (m, c) \<in> set (children (ns ! j)) \<Longrightarrow>
        c < ?c \<and> parent (ns ! c) = Some j \<and> move (ns ! c) = Some m"
    and di: "\<And>j. j < ?c \<Longrightarrow> distinct (map snd (children (ns ! j)))"
    using ts by (auto simp: tree_struct_def)
  have z: "0 < ?c" using ne by simp
  have c1: "?ns' \<noteq> []" by simp
  have c2: "parent (?ns' ! 0) = None" using old(1)[OF z] p0 by simp
  have c3: "player (?ns' ! 0) = None" using old(2)[OF z] pl0 by simp
  have c4: "\<exists>p<j. parent (?ns' ! j) = Some p \<and> j \<in> snd ` set (children (?ns' ! p))"
    if j: "j < length ?ns'" "0 < j" for j
  proof (cases "j = ?c")
    case True
    have "parent (?ns' ! j) = Some i" using True new by simp
    moreover have "j \<in> snd ` set (children (?ns' ! i))" using old(4)[OF i] True by simp
    ultimately show ?thesis using i True by (intro exI[of _ i]) simp
  next
    case False
    then have jl: "j < ?c" using j(1) by simp
    from up[OF jl j(2)] obtain p where p: "p < j" "parent (ns ! j) = Some p"
      "j \<in> snd ` set (children (ns ! p))" by blast
    have pl: "p < ?c" using p(1) jl by simp
    have "j \<in> snd ` set (children (?ns' ! p))" using old(4)[OF pl] p(3) by auto
    then show ?thesis using p(1,2) old(1)[OF jl] by auto
  qed
  have c5: "c < length ?ns' \<and> parent (?ns' ! c) = Some j \<and> move (?ns' ! c) = Some m"
    if j: "j < length ?ns'" and mc: "(m, c) \<in> set (children (?ns' ! j))" for j m c
  proof (cases "j = ?c")
    case True
    then show ?thesis using mc new by simp
  next
    case False
    then have jl: "j < ?c" using j by simp
    show ?thesis
    proof (cases "(m, c) \<in> set (children (ns ! j))")
      case True
      from dn[OF jl True] have d: "c < ?c" "parent (ns ! c) = Some j" "move (ns ! c) = Some m"
        by auto
      then show ?thesis using old(1,3)[OF d(1)] by simp
    next
      case F2: False
      then have "j = i \<and> m = mv \<and> c = ?c" using mc old(4)[OF jl] by (auto split: if_splits)
      then show ?thesis using new by simp
    qed
  qed
  have c6: "distinct (map snd (children (?ns' ! j)))" if j: "j < length ?ns'" for j
  proof (cases "j = ?c")
    case True
    then show ?thesis using new by simp
  next
    case False
    then have jl: "j < ?c" using j by simp
    have "?c \<notin> snd ` set (children (ns ! i))" using dn[OF i] by fastforce
    then show ?thesis using old(4)[OF jl] di[OF jl] di[OF i] by auto
  qed
  show ?thesis
    unfolding tree_struct_def using c1 c2 c3 c4 c5 c6 by blast
qed

lemma moves_ok_expand:
  assumes mo: "moves_ok s" and i: "i < length (nodes s)"
    and mv: "mv \<in> set (untried_moves (nodes s ! i))"
    and wf: "wf_board bd"
  shows "moves_ok \<lparr>boards = boards s @ [bd],
           nodes = (nodes s)[i := expanded_node (nodes s ! i) mv (length (nodes s))]
              @ [child_node (length (boards s)) i bd mv pc],
           tick = t\<rparr>" (is "moves_ok ?s'")
proof -
  let ?ns = "nodes s"
  let ?c = "length ?ns"
  have ok: "board (?ns ! j) < length (boards s)" "wf_board (bof s j)"
    "distinct (untried_moves (?ns ! j) @ map fst (children (?ns ! j)))"
    "set (untried_moves (?ns ! j)) \<union> fst ` set (children (?ns ! j))
       = set (get_valid_locations (bof s j))" if "j < ?c" for j
    using mo that by (auto simp: moves_ok_def)
  have "board (nodes ?s' ! j) < length (boards ?s') \<and> wf_board (bof ?s' j) \<and>
        distinct (untried_moves (nodes ?s' ! j) @ map fst (children (nodes ?s' ! j))) \<and>
        set (untried_moves (nodes ?s' ! j)) \<union> fst ` set (children (nodes ?s' ! j))
          = set (get_valid_locations (bof ?s' j))"
    if j: "j < length (nodes ?s')" for j
  proof (cases "j = ?c")
    case True
    then have n: "nodes ?s' ! j = child_node (length (boards s)) i bd mv pc"
      by (simp add: nth_expanded_last)
    have b: "bof ?s' j = bd" using n by (simp add: bof_def)
    show ?thesis using wf n b by (simp add: valid_locations_distinct)
  next
    case False
    then have jl: "j < ?c" using j by simp
    have n: "nodes ?s' ! j = (if j = i then expanded_node (?ns ! i) mv ?c else ?ns ! j)"
      using nth_expanded[OF i jl] by simp
    have b: "bof ?s' j = bof s j" using ok(1)[OF jl] ok(1)[OF i] n
      by (auto simp: bof_def nth_append)
    show ?thesis
    proof (cases "j = i")
      case True
      have d: "distinct (untried_moves (?ns ! i) @ map fst (children (?ns ! i)))"
        and e: "set (untried_moves (?ns ! i)) \<union> fst ` set (children (?ns ! i))
          = set (get_valid_locations (bof s i))" using ok(3,4)[OF i] by auto
      have d': "distinct (remove1 mv (untried_moves (?ns ! i)) @ map fst (children (?ns ! i)) @ [mv])"
        using d mv by auto
      have e': "set (remove1 mv (untried_moves (?ns ! i))) \<union> fst ` set (children (?ns ! i) @ [(mv, ?c)])
          = set (get_valid_locations (bof s i))"
        using d e mv by auto
      show ?thesis using True ok(1,2)[OF i] b d' e' n by simp
    next
      case F2: False
      then show ?thesis using ok[OF jl] b n by simp
    qed
  qed
  then show ?thesis unfolding moves_ok_def by blast
qed

lemma counts_ok_expand:
  assumes "counts_ok {} ns" and "i < length ns"
  shows "counts_ok {length ns, i}
     (ns[i := expanded_node (ns ! i) mv (length ns)] @ [child_node b i bd mv pc])"
  unfolding counts_ok_def
proof (intro allI impI)
  fix j assume j: "j < length (ns[i := expanded_node (ns ! i) mv (length ns)] @ [child_node b i bd mv pc])"
  show "wins ((ns[i := expanded_node (ns ! i) mv (length ns)] @ [child_node b i bd mv pc]) ! j)
       \<le> visits ((ns[i := expanded_node (ns ! i) mv (length ns)] @ [child_node b i bd mv pc]) ! j) \<and>
       (j \<notin> {length ns, i} \<longrightarrow>
        (0 < j \<longrightarrow> 1 \<le> visits ((ns[i := expanded_node (ns ! i) mv (length ns)] @ [child_node b i bd mv pc]) ! j)) \<and>
        (children ((ns[i := expanded_node (ns ! i) mv (length ns)] @ [child_node b i bd mv pc]) ! j) \<noteq> [] \<longrightarrow>
         1 \<le> visits ((ns[i := expanded_node (ns ! i) mv (length ns)] @ [child_node b i bd mv pc]) ! j)))"
  proof (cases "j = length ns")
    case True
    then show ?thesis by (simp add: nth_expanded_last)
  next
    case False
    then have jl: "j < length ns" using j by simp
    then show ?thesis using assms nth_expanded[OF assms(2) jl]
      by (auto simp: counts_ok_def)
  qed
qed

lemma tree_struct_cong:
  assumes ts: "tree_struct ns" and len: "length ns' = length ns"
    and eq: "\<And>j. j < length ns \<Longrightarrow> parent (ns' ! j) = parent (ns ! j) \<and>
       player (ns' ! j) = player (ns ! j) \<and> move (ns' ! j) = move (ns ! j) \<and>
       children (ns' ! j) = children (ns ! j)"
  shows "tree_struct ns'"
proof -
  have ne: "ns \<noteq> []" and p0: "parent (ns ! 0) = None" and pl0: "player (ns ! 0) = None"
    and up: "\<And>j. j < length ns \<Longrightarrow> 0 < j \<Longrightarrow>
        \<exists>p<j. parent (ns ! j) = Some p \<and> j \<in> snd ` set (children (ns ! p))"
    and dn: "\<And>j m c. j < length ns \<Longrightarrow> (m, c) \<in> set (children (ns ! j)) \<Longrightarrow>
        c < length ns \<and> parent (ns ! c) = Some j \<and> move (ns ! c) = Some m"
    and di: "\<And>j. j < length ns \<Longrightarrow> distinct (map snd (children (ns ! j)))"
    using ts by (auto simp: tree_struct_def)
  have z: "0 < length ns" using ne by simp
  have c1: "ns' \<noteq> []" using len ne by auto
  have c2: "parent (ns' ! 0) = None" "player (ns' ! 0) = None" using eq[OF z] p0 pl0 by simp_all
  have c4: "\<exists>p<j. parent (ns' ! j) = Some p \<and> j \<in> snd ` set (children (ns' ! p))"
    if j: "j < length ns'" "0 < j" for j
  proof -
    have jl: "j < length ns" using j len by simp
    from up[OF jl j(2)] obtain p where p: "p < j" "parent (ns ! j) = Some p"
      "j \<in> snd ` set (children (ns ! p))" by blast
    have pl: "p < length ns" using p(1) jl by simp
    show ?thesis using p eq[OF jl] eq[OF pl] by auto
  qed
  have c5: "c < length ns' \<and> parent (ns' ! c) = Some j \<and> move (ns' ! c) = Some m"
    if j: "j < length ns'" and mc: "(m, c) \<in> set (children (ns' ! j))" for j m c
  proof -
    have jl: "j < length ns" using j len by simp
    have "(m, c) \<in> set (children (ns ! j))" using mc eq[OF jl] by simp
    from dn[OF jl this] have d: "c < length ns" "parent (ns ! c) = Some j"
      "move (ns ! c) = Some m" by auto
    show ?thesis using d eq[OF d(1)] len by simp
  qed
  have c6: "distinct (map snd (children (ns' ! j)))" if j: "j < length ns'" for j
    using di[of j] eq[of j] j len by simp
  show ?thesis
    unfolding tree_struct_def using c1 c2 c4 c5 c6 by blast
qed

lemma tree_struct_credit: "tree_struct ns \<Longrightarrow> tree_struct (credit_all w P ns)"
  by (rule tree_struct_cong[of ns]) (simp_all add: nth_credit_all)

lemma moves_ok_credit: "moves_ok s \<Longrightarrow> moves_ok (s\<lparr>nodes := credit_all w P (nodes s)\<rparr>)"
  unfolding moves_ok_def by (simp add: nth_credit_all bof_def)

lemma counts_ok_credit:
  "counts_ok X ns \<Longrightarrow> X \<subseteq> set P \<Longrightarrow> counts_ok {} (credit_all w P ns)"
  unfolding counts_ok_def by (auto simp: nth_credit_all)

lemma moves_ok_boards:
  "moves_ok s \<Longrightarrow> moves_ok (s\<lparr>tick := t, boards := boards s @ xs\<rparr>)"
  unfolding moves_ok_def by (auto simp: bof_def nth_append)

section \<open>One iteration\<close>

lemma parity_piece_nonzero:
  "(if count_pieces b mod 2 = 0 then AI_PIECE else PLAYER_PIECE) \<noteq> 0"
  by (simp add: AI_PIECE_def PLAYER_PIECE_def)

lemma backpropagate_state:
  assumes "parents_below ns" and "i < length ns"
  shows "backpropagate \<lparr>boards = bs, nodes = ns, tick = t\<rparr> (Some i) w
       = Some \<lparr>boards = bs, nodes = credit_all w (path ns i) ns, tick = t\<rparr>"
  using backpropagate_path[of "\<lparr>boards = bs, nodes = ns, tick = t\<rparr>" i w] assms by simp

lemma iteration_no_expand:
  assumes inv: "tree_inv s" and j: "j < length (nodes s)"
    and sel: "select_loop uct s 0 = Some (Inr j)" and tm: "is_terminal_node (bof s j)"
  shows "\<exists>w. mcts_iteration rnd uct 0 s =
      Some (Inr \<lparr>boards = boards s @ [bof s j],
                 nodes = credit_all w (path (nodes s) j) (nodes s), tick = tick s\<rparr>)"
proof -
  let ?np = "if count_pieces (bof s j) mod 2 = 0 then AI_PIECE else PLAYER_PIECE"
  obtain w where sim: "simulate_random_playout rnd s (board (nodes s ! j)) (Some ?np)
            = Some (Inr (w, s\<lparr>boards := boards s @ [bof s j]\<rparr>))"
    using simulate_terminal[of s "board (nodes s ! j)" rnd ?np] tm by (auto simp: bof_def)
  have pb: "parents_below (nodes s)"
    using inv by (simp add: tree_inv_def tree_struct_parents_below)
  have s2: "s\<lparr>boards := boards s @ [bof s j]\<rparr>
      = \<lparr>boards = boards s @ [bof s j], nodes = nodes s, tick = tick s\<rparr>" by simp
  have bp: "backpropagate (s\<lparr>boards := boards s @ [bof s j]\<rparr>) (Some j) w
      = Some \<lparr>boards = boards s @ [bof s j],
               nodes = credit_all w (path (nodes s) j) (nodes s), tick = tick s\<rparr>"
    unfolding s2 using backpropagate_state[OF pb j] .
  have "mcts_iteration rnd uct 0 s =
      Some (Inr \<lparr>boards = boards s @ [bof s j],
                 nodes = credit_all w (path (nodes s) j) (nodes s), tick = tick s\<rparr>)"
    unfolding mcts_iteration_def sel
    using tm sim bp by (simp add: bof_def)
  then show ?thesis by blast
qed

lemma iteration_expand:
  assumes inv: "tree_inv s" and j: "j < length (nodes s)"
    and sel: "select_loop uct s 0 = Some (Inr j)" and nt: "\<not> is_terminal_node (bof s j)"
    and un: "untried_moves (nodes s ! j) \<noteq> []"
  shows "\<exists>w t mv r pc bd2.
      mv \<in> set (untried_moves (nodes s ! j)) \<and> mv < COLUMN_COUNT \<and> r < ROW_COUNT
      \<and> bof s j ! r ! mv = 0 \<and> (\<forall>r'<r. bof s j ! r' ! mv \<noteq> 0)
      \<and> wf_board bd2 \<and> (gravity (set_cell (bof s j) r mv pc) \<longrightarrow> gravity bd2)
      \<and> mcts_iteration rnd uct 0 s =
          Some (Inr \<lparr>boards = boards s @ [set_cell (bof s j) r mv pc, bd2],
             nodes = credit_all w
               (path ((nodes s)[j := expanded_node (nodes s ! j) mv (length (nodes s))]
                       @ [child_node (length (boards s)) j (set_cell (bof s j) r mv pc) mv pc])
                     (length (nodes s)))
               ((nodes s)[j := expanded_node (nodes s ! j) mv (length (nodes s))]
                  @ [child_node (length (boards s)) j (set_cell (bof s j) r mv pc) mv pc]),
             tick = t\<rparr>)"
proof -
  have mo: "moves_ok s" and ts: "tree_struct (nodes s)" using inv by (auto simp: tree_inv_def)
  obtain mv r pc where ex: "r < ROW_COUNT" "bof s j ! r ! mv = 0"
      "\<forall>r'<r. bof s j ! r' ! mv \<noteq> 0" "mv \<in> set (untried_moves (nodes s ! j))"
      "mv < COLUMN_COUNT"
      "expand rnd s j = Inr (length (nodes s),
          \<lparr>boards = boards s @ [set_cell (bof s j) r mv pc],
           nodes = (nodes s)[j := expanded_node (nodes s ! j) mv (length (nodes s))]
              @ [child_node (length (boards s)) j (set_cell (bof s j) r mv pc) mv pc],
           tick = tick s + 1\<rparr>)"
    using expand_result[OF mo j un, of rnd] by blast
  let ?bd = "set_cell (bof s j) r mv pc"
  let ?ns' = "(nodes s)[j := expanded_node (nodes s ! j) mv (length (nodes s))]
              @ [child_node (length (boards s)) j ?bd mv pc]"
  let ?s1 = "\<lparr>boards = boards s @ [?bd], nodes = ?ns', tick = tick s + 1\<rparr>"
  let ?c = "length (nodes s)"
  have nc: "nodes ?s1 ! ?c = child_node (length (boards s)) j ?bd mv pc"
    by (simp add: nth_expanded_last)
  have bc: "board (nodes ?s1 ! ?c) = length (boards s)" using nc by simp
  have b1: "boards ?s1 ! length (boards s) = ?bd" by simp
  have wfbd: "wf_board ?bd" using tree_invD(2)[OF inv j] by (rule wf_set_cell)
  let ?np = "if count_pieces ?bd mod 2 = 0 then AI_PIECE else PLAYER_PIECE"
  have "length (boards s) < length (boards ?s1)" "wf_board (boards ?s1 ! length (boards s))"
    using wfbd by simp_all
  from simulate_returns[OF this parity_piece_nonzero, of rnd ?bd]
  obtain w t bd2 where sim: "simulate_random_playout rnd ?s1 (length (boards s)) (Some ?np)
            = Some (Inr (w, ?s1\<lparr>tick := t, boards := boards ?s1 @ [bd2]\<rparr>))"
     and bd2: "wf_board bd2" "gravity ?bd \<longrightarrow> gravity bd2" by auto
  have s2: "?s1\<lparr>tick := t, boards := boards ?s1 @ [bd2]\<rparr>
      = \<lparr>boards = boards s @ [?bd, bd2], nodes = ?ns', tick = t\<rparr>" by simp
  have pb: "parents_below ?ns'"
    using tree_struct_expand[OF ts j] by (rule tree_struct_parents_below)
  have bp: "backpropagate (?s1\<lparr>tick := t, boards := boards ?s1 @ [bd2]\<rparr>) (Some ?c) w
      = Some \<lparr>boards = boards s @ [?bd, bd2], nodes = credit_all w (path ?ns' ?c) ?ns', tick = t\<rparr>"
    unfolding s2 by (rule backpropagate_state[OF pb]) simp
  have "mcts_iteration rnd uct 0 s =
      Some (Inr \<lparr>boards = boards s @ [?bd, bd2], nodes = credit_all w (path ?ns' ?c) ?ns', tick = t\<rparr>)"
    unfolding mcts_iteration_def sel
    using nt un ex(6) sim bp bc b1
    by (simp add: bof_def is_fully_expanded_def del: One_nat_def)
  then show ?thesis using ex(1-5) bd2 by blast
qed

section \<open>Visits of the root and of its children\<close>

lemma tree_structD:
  assumes "tree_struct ns"
  shows "ns \<noteq> []" and "parent (ns ! 0) = None" and "player (ns ! 0) = None"
    and "\<And>j. j < length ns \<Longrightarrow> 0 < j \<Longrightarrow>
        \<exists>p<j. parent (ns ! j) = Some p \<and> j \<in> snd ` set (children (ns ! p))"
    and "\<And>j. j < length ns \<Longrightarrow> distinct (map snd (children (ns ! j)))"
  using assms by (auto simp: tree_struct_def)

lemma path_zero: "tree_struct ns \<Longrightarrow> path ns 0 = [0]"
  by (simp add: path.simps[of ns 0] tree_structD(2))

lemma path_child: "parent (ns ! c) = Some j \<Longrightarrow> j < c \<Longrightarrow> path ns c = c # path ns j"
  by (simp add: path.simps[of ns c])

lemma path_root:
  assumes ts: "tree_struct ns"
  shows "j < length ns \<Longrightarrow> 0 \<in> set (path ns j)"
proof (induction j rule: less_induct)
  case (less j)
  show ?case
  proof (cases "j = 0")
    case True
    then show ?thesis using path_head[of 0 ns] by simp
  next
    case False
    then obtain p where p: "p < j" "parent (ns ! j) = Some p"
      using tree_structD(4)[OF ts less.prems] by blast
    have "0 \<in> set (path ns p)" using less.IH[OF p(1)] p(1) less.prems by simp
    then show ?thesis using path_child[OF p(2,1)] by simp
  qed
qed

lemma one_child_on_path:
  assumes ts: "tree_struct ns"
  shows "j < length ns \<Longrightarrow> 0 < j \<Longrightarrow>
    \<exists>c0. c0 \<in> set (path ns j) \<and> parent (ns ! c0) = Some 0
        \<and> (\<forall>c\<in>set (path ns j). parent (ns ! c) = Some 0 \<longrightarrow> c = c0)"
proof (induction j rule: less_induct)
  case (less j)
  obtain p where p: "p < j" "parent (ns ! j) = Some p"
    using tree_structD(4)[OF ts less.prems] by blast
  have pth: "path ns j = j # path ns p" using path_child[OF p(2,1)] .
  show ?case
  proof (cases "p = 0")
    case True
    have "path ns j = [j, 0]" using pth True path_zero[OF ts] by simp
    moreover have "parent (ns ! 0) \<noteq> Some 0" using tree_structD(2)[OF ts] by simp
    ultimately show ?thesis using p(2) True by auto
  next
    case False
    then have "0 < p" by simp
    from less.IH[OF p(1) _ this] p(1) less.prems(1)
    obtain c0 where c0: "c0 \<in> set (path ns p)" "parent (ns ! c0) = Some 0"
      "\<forall>c\<in>set (path ns p). parent (ns ! c) = Some 0 \<longrightarrow> c = c0" by auto
    have "parent (ns ! j) \<noteq> Some 0" using p(2) False by simp
    then show ?thesis using c0 pth by auto
  qed
qed

lemma sum_indicator_distinct:
  "distinct (map snd cs) \<Longrightarrow> c0 \<in> snd ` set cs \<Longrightarrow>
   sum_list (map (\<lambda>mc. if snd mc = c0 then 1 else 0) cs) = (1::nat)"
proof (induction cs)
  case Nil
  then show ?case by simp
next
  case (Cons a cs)
  show ?case
  proof (cases "snd a = c0")
    case True
    then have "c0 \<notin> snd ` set cs" using Cons.prems(1) by auto
    then have "sum_list (map (\<lambda>mc. if snd mc = c0 then 1 else 0) cs) = (0::nat)"
      by (induction cs) auto
    then show ?thesis using True by simp
  next
    case False
    then show ?thesis using Cons by auto
  qed
qed

lemma root_children_visits_credit:
  assumes ts: "tree_struct ns" and j: "j < length ns" "0 < j"
  shows "root_children_visits (credit_all w (path ns j) ns) = root_children_visits ns + 1"
proof -
  let ?P = "path ns j"
  let ?cs = "children (ns ! 0)"
  have z: "0 < length ns" using j by (cases ns) auto
  obtain c0 where c0: "c0 \<in> set ?P" "parent (ns ! c0) = Some 0"
      "\<forall>c\<in>set ?P. parent (ns ! c) = Some 0 \<longrightarrow> c = c0"
    using one_child_on_path[OF ts j] by blast
  have c0l: "c0 \<le> j" using path_le[OF c0(1)] .
  then have c0len: "c0 < length ns" using j by simp
  have "c0 \<noteq> 0" using c0(2) tree_structD(2)[OF ts] by (cases "c0 = 0") auto
  then obtain p where "parent (ns ! c0) = Some p" "c0 \<in> snd ` set (children (ns ! p))"
    using tree_structD(4)[OF ts c0len] by blast
  then have c0in: "c0 \<in> snd ` set ?cs" using c0(2) by simp
  have ch: "\<And>m c. (m, c) \<in> set ?cs \<Longrightarrow> c < length ns \<and> parent (ns ! c) = Some 0"
    using tree_struct_child[OF ts z] by blast
  have each: "visits (credit_all w ?P ns ! snd mc)
      = visits (ns ! snd mc) + (if snd mc = c0 then 1 else 0)" if "mc \<in> set ?cs" for mc
  proof -
    obtain m c where mc: "mc = (m, c)" by (cases mc)
    have c: "c < length ns" "parent (ns ! c) = Some 0" using ch that mc by auto
    have "c \<in> set ?P \<longleftrightarrow> c = c0" using c0(1,3) c(2) by auto
    then show ?thesis using c(1) by (simp add: mc nth_credit_all)
  qed
  have "root_children_visits (credit_all w ?P ns)
      = sum_list (map (\<lambda>mc. visits (credit_all w ?P ns ! snd mc)) ?cs)"
    using z by (simp add: root_children_visits_def nth_credit_all)
  also have "\<dots> = sum_list (map (\<lambda>mc. visits (ns ! snd mc) + (if snd mc = c0 then 1 else 0)) ?cs)"
    using each by (intro arg_cong[where f = sum_list] map_cong) auto
  also have "\<dots> = sum_list (map (\<lambda>mc. visits (ns ! snd mc)) ?cs)
      + sum_list (map (\<lambda>mc. if snd mc = c0 then 1 else 0) ?cs)"
    by (simp add: sum_list_addf)
  also have "\<dots> = root_children_visits ns + 1"
    using sum_indicator_distinct[OF tree_structD(5)[OF ts z] c0in]
    by (simp add: root_children_visits_def)
  finally show ?thesis .
qed

lemma root_children_visits_expand:
  assumes ts: "tree_struct ns" and j: "j < length ns"
  shows "root_children_visits
      (ns[j := expanded_node (ns ! j) mv (length ns)] @ [child_node b j bd mv pc])
    = root_children_visits ns" (is "root_children_visits ?ns' = _")
proof -
  let ?cs = "children (ns ! 0)"
  have z: "0 < length ns" using j by (cases ns) auto
  have ch: "\<And>m c. (m, c) \<in> set ?cs \<Longrightarrow> c < length ns"
    using tree_struct_child[OF ts z] by blast
  have old: "visits (?ns' ! snd mc) = visits (ns ! snd mc)" if "mc \<in> set ?cs" for mc
  proof -
    obtain m c where mc: "mc = (m, c)" by (cases mc)
    have "c < length ns" using ch that mc by auto
    then show ?thesis using nth_expanded[OF j, of c] by (simp add: mc)
  qed
  have e: "sum_list (map (\<lambda>mc. visits (?ns' ! snd mc)) ?cs)
      = sum_list (map (\<lambda>mc. visits (ns ! snd mc)) ?cs)"
    using old by (intro arg_cong[where f = sum_list] map_cong) auto
  have c0: "children (?ns' ! 0) = (if j = 0 then ?cs @ [(mv, length ns)] else ?cs)"
    using nth_expanded[OF j z] by simp
  have new: "visits (?ns' ! length ns) = 0" by (simp add: nth_expanded_last)
  show ?thesis
  proof (cases "j = 0")
    case True
    then show ?thesis unfolding root_children_visits_def c0 using e new by simp
  next
    case False
    then show ?thesis unfolding root_children_visits_def c0 using e by simp
  qed
qed

lemma bof_cong:
  "board (nodes s' ! i) = board (nodes s ! i) \<Longrightarrow> board (nodes s ! i) < length (boards s) \<Longrightarrow>
   boards s' = boards s @ xs \<Longrightarrow> bof s' i = bof s i"
  by (simp add: bof_def nth_append)

lemma moves_ok_cong:
  assumes mo: "moves_ok s" and len: "length (nodes s') = length (nodes s)"
    and bs: "boards s' = boards s @ xs"
    and eq: "\<And>i. i < length (nodes s) \<Longrightarrow> board (nodes s' ! i) = board (nodes s ! i) \<and>
        untried_moves (nodes s' ! i) = untried_moves (nodes s ! i) \<and>
        children (nodes s' ! i) = children (nodes s ! i)"
  shows "moves_ok s'"
  unfolding moves_ok_def
proof (intro allI impI)
  fix i assume "i < length (nodes s')"
  then have i: "i < length (nodes s)" using len by simp
  have ok: "board (nodes s ! i) < length (boards s)" "wf_board (bof s i)"
    "distinct (untried_moves (nodes s ! i) @ map fst (children (nodes s ! i)))"
    "set (untried_moves (nodes s ! i)) \<union> fst ` set (children (nodes s ! i))
       = set (get_valid_locations (bof s i))"
    using mo i by (auto simp: moves_ok_def)
  have b: "bof s' i = bof s i" using bof_cong[OF _ ok(1) bs] eq[OF i] by simp
  show "board (nodes s' ! i) < length (boards s') \<and> wf_board (bof s' i) \<and>
        distinct (untried_moves (nodes s' ! i) @ map fst (children (nodes s' ! i))) \<and>
        set (untried_moves (nodes s' ! i)) \<union> fst ` set (children (nodes s' ! i))
          = set (get_valid_locations (bof s' i))"
    using ok eq[OF i] b bs by simp
qed

lemma iter_post_no_expand:
  assumes inv: "tree_inv s" and j: "j < length (nodes s)"
    and tj: "is_terminal_node (bof s j)"
    and root: "is_terminal_node (bof s 0) \<longrightarrow> j = 0"
  shows "iter_post s \<lparr>boards = boards s @ [bof s j],
                 nodes = credit_all w (path (nodes s) j) (nodes s), tick = tick s\<rparr>"
    (is "iter_post s ?s'")
proof -
  let ?ns = "nodes s"
  let ?P = "path ?ns j"
  have ts: "tree_struct ?ns" and mo: "moves_ok s" and co: "counts_ok {} ?ns"
    using inv by (auto simp: tree_inv_def)
  have z: "0 < length ?ns" using j by (cases ?ns) auto
  have nth: "\<And>i. i < length ?ns \<Longrightarrow>
      nodes ?s' ! i = (if i \<in> set ?P then credit w (?ns ! i) else ?ns ! i)"
    by (simp add: nth_credit_all)
  have 1: "tree_inv ?s'"
    unfolding tree_inv_def
  proof (intro conjI)
    show "tree_struct (nodes ?s')" using tree_struct_credit[OF ts] by simp
    show "moves_ok ?s'" by (rule moves_ok_cong[OF mo, of _ "[bof s j]"]) (simp_all add: nth_credit_all)
    show "counts_ok {} (nodes ?s')" using counts_ok_credit[OF co, of ?P] by simp
  qed
  have 2: "visits (nodes ?s' ! 0) = visits (?ns ! 0) + 1"
    using path_root[OF ts j] nth[OF z] by simp
  have 3: "\<exists>xs. boards ?s' = boards s @ xs \<and> (node_gravity s \<longrightarrow> list_all gravity xs)"
    using j by (auto simp: node_gravity_def)
  have 4: "board (nodes ?s' ! 0) = board (?ns ! 0)" using nth[OF z] by simp
  have 5: "\<not> is_terminal_node (bof s 0) \<longrightarrow>
          root_children_visits (nodes ?s') = root_children_visits ?ns + 1"
  proof
    assume "\<not> is_terminal_node (bof s 0)"
    then have "0 < j" using tj by (cases "j = 0") auto
    from root_children_visits_credit[OF ts j this] show
      "root_children_visits (nodes ?s') = root_children_visits ?ns + 1" by simp
  qed
  have 6: "is_terminal_node (bof s 0) \<longrightarrow>
          children (nodes ?s' ! 0) = children (?ns ! 0) \<and> tick ?s' = tick s"
    using nth[OF z] by simp
  have 7: "node_gravity s \<longrightarrow> node_gravity ?s'"
  proof
    assume g: "node_gravity s"
    show "node_gravity ?s'"
      unfolding node_gravity_def
    proof (intro allI impI)
      fix i assume "i < length (nodes ?s')"
      then have i: "i < length ?ns" by simp
      have "bof ?s' i = bof s i"
        by (rule bof_cong[of _ _ _ "[bof s j]"]) (use nth[OF i] tree_invD(1)[OF inv i] in simp_all)
      then show "gravity (bof ?s' i)" using g i by (simp add: node_gravity_def)
    qed
  qed
  show ?thesis unfolding iter_post_def using 1 2 3 4 5 6 7 by blast
qed

lemma iter_post_expand:
  assumes inv: "tree_inv s" and j: "j < length (nodes s)"
    and ntj: "\<not> is_terminal_node (bof s j)"
    and root: "is_terminal_node (bof s 0) \<longrightarrow> j = 0"
    and mv: "mv \<in> set (untried_moves (nodes s ! j))" "mv < COLUMN_COUNT"
    and r: "r < ROW_COUNT" "bof s j ! r ! mv = 0" "\<forall>r'<r. bof s j ! r' ! mv \<noteq> 0"
    and bd2: "wf_board bd2" "gravity (set_cell (bof s j) r mv pc) \<longrightarrow> gravity bd2"
  shows "iter_post s \<lparr>boards = boards s @ [set_cell (bof s j) r mv pc, bd2],
             nodes = credit_all w
               (path ((nodes s)[j := expanded_node (nodes s ! j) mv (length (nodes s))]
                       @ [child_node (length (boards s)) j (set_cell (bof s j) r mv pc) mv pc])
                     (length (nodes s)))
               ((nodes s)[j := expanded_node (nodes s ! j) mv (length (nodes s))]
                  @ [child_node (length (boards s)) j (set_cell (bof s j) r mv pc) mv pc]),
             tick = t\<rparr>"
proof -
  let ?ns = "nodes s"
  let ?c = "length ?ns"
  let ?bd = "set_cell (bof s j) r mv pc"
  let ?ns' = "?ns[j := expanded_node (?ns ! j) mv ?c] @ [child_node (length (boards s)) j ?bd mv pc]"
  let ?P = "path ?ns' ?c"
  let ?s1 = "\<lparr>boards = boards s @ [?bd], nodes = ?ns', tick = t\<rparr>"
  let ?s' = "\<lparr>boards = boards s @ [?bd, bd2], nodes = credit_all w ?P ?ns', tick = t\<rparr>"
  have ts: "tree_struct ?ns" and mo: "moves_ok s" and co: "counts_ok {} ?ns"
    using inv by (auto simp: tree_inv_def)
  have z: "0 < ?c" using j by (cases ?ns) auto
  have wfj: "wf_board (bof s j)" using tree_invD(2)[OF inv j] .
  have wfbd: "wf_board ?bd" using wfj by (rule wf_set_cell)
  have ts': "tree_struct ?ns'" using tree_struct_expand[OF ts j] .
  have len': "length ?ns' = Suc ?c" by simp
  have cl: "?c < length ?ns'" by simp
  have nthc: "?ns' ! ?c = child_node (length (boards s)) j ?bd mv pc" by (rule nth_expanded_last)
  have nthold: "\<And>i. i < ?c \<Longrightarrow> ?ns' ! i = (if i = j then expanded_node (?ns ! j) mv ?c else ?ns ! i)"
    using nth_expanded[OF j] by simp
  have pc: "?P = ?c # path ?ns' j" using path_child[of ?ns' ?c j] nthc j by simp
  have sub: "{?c, j} \<subseteq> set ?P" using pc path_head[of j ?ns'] by simp
  have nth: "\<And>i. i < length ?ns' \<Longrightarrow>
      nodes ?s' ! i = (if i \<in> set ?P then credit w (?ns' ! i) else ?ns' ! i)"
    using nth_credit_all[of _ ?ns' w ?P] by simp
  have mo1: "moves_ok ?s1" using moves_ok_expand[OF mo j mv(1) wfbd] .
  have 1: "tree_inv ?s'"
    unfolding tree_inv_def
  proof (intro conjI)
    show "tree_struct (nodes ?s')" using tree_struct_credit[OF ts'] by simp
    show "moves_ok ?s'"
      by (rule moves_ok_cong[OF mo1, of _ "[bd2]"]) (simp_all add: nth_credit_all)
    show "counts_ok {} (nodes ?s')"
      using counts_ok_credit[OF counts_ok_expand[OF co j] sub] by simp
  qed
  have v0: "visits (?ns' ! 0) = visits (?ns ! 0)" using nthold[OF z] by simp
  have "0 < length ?ns'" by simp
  have 2: "visits (nodes ?s' ! 0) = visits (?ns ! 0) + 1"
    using path_root[OF ts' cl] nth[OF \<open>0 < length ?ns'\<close>] v0 by simp
  have 3: "\<exists>xs. boards ?s' = boards s @ xs \<and> (node_gravity s \<longrightarrow> list_all gravity xs)"
  proof (intro exI[of _ "[?bd, bd2]"] conjI impI)
    show "boards ?s' = boards s @ [?bd, bd2]" by simp
    assume "node_gravity s"
    then have "gravity (bof s j)" using j by (simp add: node_gravity_def)
    then have "gravity ?bd" using gravity_set_cell[OF wfj _ mv(2) r] by simp
    then show "list_all gravity [?bd, bd2]" using bd2(2) by simp
  qed
  have 4: "board (nodes ?s' ! 0) = board (?ns ! 0)"
    using nth[OF \<open>0 < length ?ns'\<close>] nthold[OF z] by simp
  have 5: "root_children_visits (nodes ?s') = root_children_visits ?ns + 1"
    using root_children_visits_credit[OF ts' cl, of w] z
      root_children_visits_expand[OF ts j, of mv "length (boards s)" ?bd pc] by simp
  have 6: "\<not> is_terminal_node (bof s 0)" using root ntj by auto
  have 7: "node_gravity s \<longrightarrow> node_gravity ?s'"
  proof
    assume g: "node_gravity s"
    then have "gravity (bof s j)" using j by (simp add: node_gravity_def)
    then have gbd: "gravity ?bd" using gravity_set_cell[OF wfj _ mv(2) r] by simp
    show "node_gravity ?s'"
      unfolding node_gravity_def
    proof (intro allI impI)
      fix i assume "i < length (nodes ?s')"
      then have i: "i < length ?ns'" by simp
      show "gravity (bof ?s' i)"
      proof (cases "i = ?c")
        case True
        have "board (nodes ?s' ! i) = length (boards s)" using nth[OF i] nthc True by simp
        then have "bof ?s' i = ?bd" by (simp add: bof_def)
        then show ?thesis using gbd by simp
      next
        case False
        then have il: "i < ?c" using i by simp
        have "board (nodes ?s' ! i) = board (?ns ! i)" using nth[OF i] nthold[OF il] by simp
        then have "bof ?s' i = bof s i"
          using tree_invD(1)[OF inv il] by (simp add: bof_def nth_append)
        then show ?thesis using g il by (simp add: node_gravity_def)
      qed
    qed
  qed
  show ?thesis unfolding iter_post_def using 1 2 3 4 5 6 7 by blast
qed

lemma mcts_iteration_post:
  assumes inv: "tree_inv s"
  shows "\<exists>s'. mcts_iteration rnd uct 0 s = Some (Inr s') \<and> iter_post s s'"
proof -
  have z: "0 < length (nodes s)" using inv by (auto simp: tree_inv_def tree_struct_def)
  obtain j where j: "select_loop uct s 0 = Some (Inr j)" "j < length (nodes s)"
      "is_terminal_node (bof s j) \<or> untried_moves (nodes s ! j) \<noteq> []"
      "is_terminal_node (bof s 0) \<longrightarrow> j = 0"
    using select_loop_returns[OF inv z, of uct] by blast
  show ?thesis
  proof (cases "is_terminal_node (bof s j)")
    case True
    from iteration_no_expand[OF inv j(2,1) True, of rnd]
    obtain w where "mcts_iteration rnd uct 0 s =
      Some (Inr \<lparr>boards = boards s @ [bof s j],
                 nodes = credit_all w (path (nodes s) j) (nodes s), tick = tick s\<rparr>)" by blast
    then show ?thesis using iter_post_no_expand[OF inv j(2) True j(4)] by metis
  next
    case False
    then have un: "untried_moves (nodes s ! j) \<noteq> []" using j(3) by simp
    from iteration_expand[OF inv j(2,1) False un, of rnd]
    obtain w t mv r pc bd2 where e:
      "mv \<in> set (untried_moves (nodes s ! j))" "mv < COLUMN_COUNT" "r < ROW_COUNT"
      "bof s j ! r ! mv = 0" "\<forall>r'<r. bof s j ! r' ! mv \<noteq> 0"
      "wf_board bd2" "gravity (set_cell (bof s j) r mv pc) \<longrightarrow> gravity bd2"
      "mcts_iteration rnd uct 0 s =
          Some (Inr \<lparr>boards = boards s @ [set_cell (bof s j) r mv pc, bd2],
             nodes = credit_all w
               (path ((nodes s)[j := expanded_node (nodes s ! j) mv (length (nodes s))]
                       @ [child_node (length (boards s)) j (set_cell (bof s j) r mv pc) mv pc])
                     (length (nodes s)))
               ((nodes s)[j := expanded_node (nodes s ! j) mv (length (nodes s))]
                  @ [child_node (length (boards s)) j (set_cell (bof s j) r mv pc) mv pc]),
             tick = t\<rparr>)" by blast
    show ?thesis
      using iter_post_expand[OF inv j(2) False j(4) e(1-7)] e(8) by metis
  qed
qed

section \<open>The loop and the initial tree\<close>

lemma loop_post_0: "tree_inv s \<Longrightarrow> loop_post 0 s s"
  by (simp add: loop_post_def)

lemma loop_post_step:
  assumes inv: "tree_inv s" and 1: "iter_post s s1" and 2: "loop_post n s1 s2"
  shows "loop_post (Suc n) s s2"
proof -
  have z: "0 < length (nodes s)" using inv by (auto simp: tree_inv_def tree_struct_def)
  obtain xs where xs: "boards s1 = boards s @ xs" "node_gravity s \<longrightarrow> list_all gravity xs"
    using 1 by (auto simp: iter_post_def)
  obtain ys where ys: "boards s2 = boards s1 @ ys" "node_gravity s1 \<longrightarrow> list_all gravity ys"
    using 2 by (auto simp: loop_post_def)
  have b0: "board (nodes s1 ! 0) = board (nodes s ! 0)" using 1 by (simp add: iter_post_def)
  have bof0: "bof s1 0 = bof s 0"
    using bof_cong[OF b0 tree_invD(1)[OF inv z] xs(1)] .
  have g: "node_gravity s \<longrightarrow> node_gravity s1" using 1 by (simp add: iter_post_def)
  have bs: "\<exists>zs. boards s2 = boards s @ zs \<and> (node_gravity s \<longrightarrow> list_all gravity zs)"
    using xs ys g by (intro exI[of _ "xs @ ys"]) auto
  show ?thesis
    using 1 2 bs unfolding loop_post_def iter_post_def bof0 by auto
qed

lemma mcts_loop_post:
  "tree_inv s \<Longrightarrow> \<exists>s'. mcts_loop rnd uct 0 n s = Some (Inr s') \<and> loop_post n s s'"
proof (induction n arbitrary: s)
  case 0
  then show ?case using loop_post_0 by simp
next
  case (Suc n)
  obtain s1 where s1: "mcts_iteration rnd uct 0 s = Some (Inr s1)" "iter_post s s1"
    using mcts_iteration_post[OF Suc.prems, of rnd uct] by blast
  have "tree_inv s1" using s1(2) by (simp add: iter_post_def)
  from Suc.IH[OF this] obtain s2 where s2: "mcts_loop rnd uct 0 n s1 = Some (Inr s2)"
    "loop_post n s1 s2" by blast
  have "mcts_loop rnd uct 0 (Suc n) s = Some (Inr s2)" using s1(1) s2(1) by simp
  then show ?case using loop_post_step[OF Suc.prems s1(2) s2(2)] by blast
qed

lemma mcts_tree_init:
  "mcts_tree rnd uct bs a n =
    (case mcts_loop rnd uct 0 n (init_state bs a) of
       None \<Rightarrow> None | Some (Inl e) \<Rightarrow> Some (Inl e) | Some (Inr s) \<Rightarrow> Some (Inr (0, s)))"
  by (simp add: mcts_tree_def copy_board_def Node_def init_state_def root_node_def Let_def
      split: option.splits sum.splits)

lemma tree_inv_init: "wf_board (bs ! a) \<Longrightarrow> tree_inv (init_state bs a)"
  by (simp add: tree_inv_def tree_struct_def moves_ok_def counts_ok_def init_state_def
      root_node_def bof_def valid_locations_distinct)

lemma init_state_facts:
  "bof (init_state bs a) 0 = bs ! a" "visits (nodes (init_state bs a) ! 0) = 0"
  "root_children_visits (nodes (init_state bs a)) = 0"
  "children (nodes (init_state bs a) ! 0) = []" "tick (init_state bs a) = 0"
  "board (nodes (init_state bs a) ! 0) = length bs"
  "boards (init_state bs a) = bs @ [bs ! a]"
  "node_gravity (init_state bs a) = gravity (bs ! a)"
  by (simp_all add: init_state_def root_node_def bof_def root_children_visits_def
      node_gravity_def)

lemma mcts_tree_spec:
  assumes wf: "wf_board (bs ! a)"
  shows "\<exists>s. mcts_tree rnd uct bs a n = Some (Inr (0, s)) \<and> tree_inv s
      \<and> visits (nodes s ! 0) = n
      \<and> (\<exists>xs. boards s = bs @ [bs ! a] @ xs \<and> (gravity (bs ! a) \<longrightarrow> list_all gravity xs))
      \<and> board (nodes s ! 0) = length bs
      \<and> (\<not> is_terminal_node (bs ! a) \<longrightarrow> root_children_visits (nodes s) = n)
      \<and> (is_terminal_node (bs ! a) \<longrightarrow> children (nodes s ! 0) = [] \<and> tick s = 0)
      \<and> (gravity (bs ! a) \<longrightarrow> node_gravity s)"
proof -
  obtain s where s: "mcts_loop rnd uct 0 n (init_state bs a) = Some (Inr s)"
    "loop_post n (init_state bs a) s"
    using mcts_loop_post[OF tree_inv_init[OF wf], of rnd uct n] by blast
  have "mcts_tree rnd uct bs a n = Some (Inr (0, s))" using s(1) by (simp add: mcts_tree_init)
  then show ?thesis using s(2) unfolding loop_post_def init_state_facts by auto
qed

section \<open>The choice of the move\<close>

lemma max_first_max:
  fixes f :: "'a \<Rightarrow> nat"
  assumes gt: "\<And>x y. gt x y \<longleftrightarrow> f y < f x"
  shows "\<forall>x\<in>set (m # xs). f x \<le> f (max_first gt m xs)"
proof (induction xs arbitrary: m)
  case Nil
  then show ?case by simp
next
  case (Cons a xs)
  define m' where "m' = (if gt a m then a else m)"
  have IH: "\<forall>x\<in>set (m' # xs). f x \<le> f (max_first gt m' xs)" using Cons.IH .
  have le: "f m \<le> f m'" "f a \<le> f m'" using gt[of a m] by (auto simp: m'_def)
  have e: "max_first gt m (a # xs) = max_first gt m' xs" by (simp add: m'_def)
  have "f m' \<le> f (max_first gt m' xs)" using IH by simp
  then show ?case unfolding e using IH le by auto
qed

lemma py_max_max:
  fixes f :: "'a \<Rightarrow> nat"
  assumes gt: "\<And>x y. gt x y \<longleftrightarrow> f y < f x" and ne: "xs \<noteq> []"
  shows "\<exists>x. py_max gt xs = Inr x \<and> x \<in> set xs \<and> (\<forall>y\<in>set xs. f y \<le> f x)"
proof -
  obtain m rest where xs: "xs = m # rest" using ne by (cases xs) auto
  show ?thesis
    using max_first_max[of gt f m rest, OF gt] max_first_mem[of gt m rest]
    by (simp add: py_max_def xs)
qed

text \<open>The state that \<open>MCTS_Search\<close> returns has the tree and the heap of \<open>mcts_tree\<close>.\<close>

lemma MCTS_Search_state:
  assumes "mcts_tree rnd uct bs a n = Some (Inr (rt, s))"
    and "MCTS_Search rnd uct rd bs a n = Some (Inr r)"
  shows "nodes (snd r) = nodes s \<and> boards (snd r) = boards s"
  using assms
  by (auto simp: MCTS_Search_def choice_def split: if_splits sum.splits prod.splits)

lemma tree_boards_caller:
  assumes "a < length bs" and "boards s = bs @ [bs ! a] @ xs"
  shows "boards s ! a = bs ! a" and "take (length bs) (boards s) = bs"
  using assms by (simp_all add: nth_append)

lemma MCTS_Search_fallback:
  assumes t: "mcts_tree rnd uct bs a n = Some (Inr (0, s))"
    and ch: "children (nodes s ! 0) = []"
  shows "MCTS_Search rnd uct rd bs a n =
    (case choice rnd s (get_valid_locations (boards s ! a)) of
       Inl e \<Rightarrow> Some (Inl e) | Inr (col, s') \<Rightarrow> Some (Inr ((Some col, []), s')))"
  using t ch by (simp add: MCTS_Search_def)

lemma MCTS_Search_best:
  assumes t: "mcts_tree rnd uct bs a n = Some (Inr (0, s))" and inv: "tree_inv s"
    and ch: "children (nodes s ! 0) \<noteq> []"
  shows "\<exists>m c. (m, c) \<in> set (children (nodes s ! 0))
      \<and> (\<forall>mc\<in>set (children (nodes s ! 0)). visits (nodes s ! snd mc) \<le> visits (nodes s ! c))
      \<and> MCTS_Search rnd uct rd bs a n =
          Some (Inr ((Some m,
                      map (\<lambda>(k, c'). (k, stat_of rd (visits (nodes s ! c)) (nodes s ! c')))
                        (children (nodes s ! 0))), s))"
proof -
  let ?ns = "nodes s"
  let ?cs = "children (?ns ! 0)"
  have ts: "tree_struct ?ns" using inv by (simp add: tree_inv_def)
  have z: "0 < length ?ns" using tree_structD(1)[OF ts] by simp
  have ne: "map snd ?cs \<noteq> []" using ch by simp
  have "\<exists>x. py_max (\<lambda>x y. visits (?ns ! x) > visits (?ns ! y)) (map snd ?cs) = Inr x
      \<and> x \<in> set (map snd ?cs)
      \<and> (\<forall>y\<in>set (map snd ?cs). visits (?ns ! y) \<le> visits (?ns ! x))"
    by (rule py_max_max[where f = "\<lambda>x. visits (?ns ! x)"]) (use ne in simp_all)
  then obtain best where pb: "py_max (\<lambda>x y. visits (?ns ! x) > visits (?ns ! y)) (map snd ?cs) = Inr best"
    and best23: "best \<in> set (map snd ?cs)"
      "\<forall>y\<in>set (map snd ?cs). visits (?ns ! y) \<le> visits (?ns ! best)" by blast
  have best1: "best_child_by_visits s 0 = Inr best" using pb by (simp add: best_child_by_visits_def)
  note best = best1 best23
  let ?vs = "map (\<lambda>(col, c). visits (?ns ! c)) ?cs"
  have ne2: "?vs \<noteq> []" using ch by simp
  have "\<exists>x. py_max (\<lambda>x y. x > y) ?vs = Inr x \<and> x \<in> set ?vs \<and> (\<forall>y\<in>set ?vs. y \<le> x)"
    by (rule py_max_max[where f = "\<lambda>x. x"]) (use ne2 in simp_all)
  then obtain mx where pm: "py_max (\<lambda>x y. x > y) ?vs = Inr mx"
    and mx23: "mx \<in> set ?vs" "\<forall>y\<in>set ?vs. y \<le> mx" by blast
  have mx1: "max_visits_of s 0 = Inr mx" using pm by (simp add: max_visits_of_def)
  note mx = mx1 mx23
  have vs: "set ?vs = (\<lambda>c. visits (?ns ! c)) ` set (map snd ?cs)"
    by (auto simp: case_prod_beta image_iff)
  have "visits (?ns ! best) \<in> set ?vs" unfolding vs using best(2) by blast
  then have le1: "visits (?ns ! best) \<le> mx" using mx(3) by blast
  obtain c' where "c' \<in> set (map snd ?cs)" "mx = visits (?ns ! c')"
    using mx(2) unfolding vs by blast
  then have "mx \<le> visits (?ns ! best)" using best(3) by blast
  then have mxe: "mx = visits (?ns ! best)" using le1 by simp
  obtain m where m: "(m, best) \<in> set ?cs" using best(2) by auto
  have mv: "move (?ns ! best) = Some m" using tree_struct_child(3)[OF ts z m] .
  have "MCTS_Search rnd uct rd bs a n =
          Some (Inr ((Some m,
                      map (\<lambda>(k, c'). (k, stat_of rd (visits (?ns ! best)) (?ns ! c'))) ?cs), s))"
    using t ch best(1) mx(1) mxe mv by (simp add: MCTS_Search_def)
  moreover have "\<forall>mc\<in>set ?cs. visits (?ns ! snd mc) \<le> visits (?ns ! best)"
    using best(3) by auto
  ultimately show ?thesis using m by blast
qed

section \<open>The search: results\<close>

lemma tree_root_board:
  assumes "board (nodes s ! 0) = length bs" and "boards s = bs @ [bs ! a] @ xs"
  shows "bof s 0 = bs ! a"
  using assms by (simp add: bof_def nth_append)

lemma MCTS_Search_returns:
  assumes a: "a < length bs" and wf: "wf_board (bs ! a)"
    and ne: "get_valid_locations (bs ! a) \<noteq> []"
  shows "\<exists>s col stats s'. mcts_tree rnd uct bs a n = Some (Inr (0, s))
      \<and> MCTS_Search rnd uct rd bs a n = Some (Inr ((Some col, stats), s'))
      \<and> col \<in> set (get_valid_locations (bs ! a))
      \<and> nodes s' = nodes s \<and> boards s' = boards s"
proof -
  obtain s xs where s: "mcts_tree rnd uct bs a n = Some (Inr (0, s))" "tree_inv s"
      "boards s = bs @ [bs ! a] @ xs" "board (nodes s ! 0) = length bs"
    using mcts_tree_spec[OF wf, of rnd uct n] by blast
  have ba: "boards s ! a = bs ! a" using tree_boards_caller(1)[OF a s(3)] .
  have b0: "bof s 0 = bs ! a" using tree_root_board[OF s(4,3)] .
  have z: "0 < length (nodes s)" using s(2) by (auto simp: tree_inv_def tree_struct_def)
  show ?thesis
  proof (cases "children (nodes s ! 0) = []")
    case True
    let ?vl = "get_valid_locations (bs ! a)"
    have "MCTS_Search rnd uct rd bs a n =
        Some (Inr ((Some (?vl ! (rnd (tick s) mod length ?vl)), []), s\<lparr>tick := tick s + 1\<rparr>))"
      using MCTS_Search_fallback[OF s(1) True] choice_nonempty[OF ne, of rnd s] ba by simp
    moreover have "?vl ! (rnd (tick s) mod length ?vl) \<in> set ?vl" using ne by simp
    ultimately show ?thesis using s(1) by force
  next
    case False
    from MCTS_Search_best[OF s(1,2) False]
    obtain m c where mc: "(m, c) \<in> set (children (nodes s ! 0))"
      "MCTS_Search rnd uct rd bs a n =
          Some (Inr ((Some m,
                      map (\<lambda>(k, c'). (k, stat_of rd (visits (nodes s ! c)) (nodes s ! c')))
                        (children (nodes s ! 0))), s))" by blast
    have "m \<in> fst ` set (children (nodes s ! 0))" using mc(1) by force
    then have "m \<in> set (get_valid_locations (bof s 0))" using tree_invD(4)[OF s(2) z] by blast
    then have "m \<in> set (get_valid_locations (bs ! a))" using b0 by simp
    then show ?thesis using s(1) mc(2) by blast
  qed
qed

text \<open>
  C1. For every well-shaped board and every number \<open>n\<close> of iterations the loop of
  \<open>MCTS_Search\<close> ends, in a tree whose root (node 0, the node without parent) has
  \<open>visits = n\<close>; and whenever \<open>MCTS_Search\<close> returns a result, the root of the tree it
  leaves has \<open>visits = n\<close>.
\<close>

theorem root_visits_equal_iterations:
  assumes "a < length bs" and "wf_board (bs ! a)"
  shows "(\<exists>s. mcts_tree rnd uct bs a n = Some (Inr (0, s)) \<and> parent (nodes s ! 0) = None
            \<and> visits (nodes s ! 0) = n)
       \<and> (\<forall>r. MCTS_Search rnd uct rd bs a n = Some (Inr r) \<longrightarrow> visits (nodes (snd r) ! 0) = n)"
proof -
  obtain s where s: "mcts_tree rnd uct bs a n = Some (Inr (0, s))" "tree_inv s"
      "visits (nodes s ! 0) = n"
    using mcts_tree_spec[OF assms(2), of rnd uct n] by blast
  have "parent (nodes s ! 0) = None" using s(2) by (simp add: tree_inv_def tree_struct_def)
  moreover have "visits (nodes (snd r) ! 0) = n" if "MCTS_Search rnd uct rd bs a n = Some (Inr r)" for r
    using MCTS_Search_state[OF s(1) that] s(3) by simp
  ultimately show ?thesis using s(1,3) by blast
qed

text \<open>
  C2. On every well-shaped board with at least one legal column, and for every number of
  iterations, every random source and every score, \<open>MCTS_Search\<close> returns (it neither
  raises nor runs forever), and the column it returns is one of \<open>get_valid_locations\<close> of
  the caller's board.
\<close>

theorem search_returns_legal_column:
  assumes "a < length bs" and "wf_board (bs ! a)" and "get_valid_locations (bs ! a) \<noteq> []"
  shows "\<exists>col stats s. MCTS_Search rnd uct rd bs a n = Some (Inr ((Some col, stats), s))
      \<and> col \<in> set (get_valid_locations (bs ! a))"
  using MCTS_Search_returns[OF assms, of rnd uct n] by blast

lemma terminal_root_result:
  assumes a: "a < length bs" and wf: "wf_board (bs ! a)" and tm: "is_terminal_node (bs ! a)"
  shows "\<exists>s. mcts_tree rnd uct bs a n = Some (Inr (0, s)) \<and> children (nodes s ! 0) = []
      \<and> tick s = 0 \<and> boards s ! a = bs ! a"
proof -
  obtain s xs where s: "mcts_tree rnd uct bs a n = Some (Inr (0, s))"
      "boards s = bs @ [bs ! a] @ xs"
      "is_terminal_node (bs ! a) \<longrightarrow> children (nodes s ! 0) = [] \<and> tick s = 0"
    using mcts_tree_spec[OF wf, of rnd uct n] by blast
  show ?thesis using s tm tree_boards_caller(1)[OF a s(2)] by blast
qed

text \<open>
  C3. When the root board is terminal and still has a legal column, \<open>MCTS_Search\<close>
  returns the empty statistics and the column that \<open>random.choice\<close> draws from the legal
  columns (the first draw of the random source, no draw having been used before), the root
  has no children, and every legal column is returned for some random source.
\<close>

theorem terminal_root_random_fallback:
  assumes a: "a < length bs" and wf: "wf_board (bs ! a)" and tm: "is_terminal_node (bs ! a)"
    and ne: "get_valid_locations (bs ! a) \<noteq> []"
  shows "(\<exists>s. MCTS_Search rnd uct rd bs a n =
            Some (Inr ((Some (get_valid_locations (bs ! a)
                         ! (rnd 0 mod length (get_valid_locations (bs ! a)))), []), s))
          \<and> children (nodes s ! 0) = [])
    \<and> (\<forall>col\<in>set (get_valid_locations (bs ! a)).
          \<exists>rnd' s. MCTS_Search rnd' uct rd bs a n = Some (Inr ((Some col, []), s)))"
proof -
  let ?vl = "get_valid_locations (bs ! a)"
  have res: "\<exists>s. MCTS_Search r uct rd bs a n =
            Some (Inr ((Some (?vl ! (r 0 mod length ?vl)), []), s)) \<and> children (nodes s ! 0) = []"
    for r :: "nat \<Rightarrow> nat"
  proof -
    obtain s where s: "mcts_tree r uct bs a n = Some (Inr (0, s))" "children (nodes s ! 0) = []"
        "tick s = 0" "boards s ! a = bs ! a"
      using terminal_root_result[OF a wf tm, of r uct n] by blast
    have "MCTS_Search r uct rd bs a n =
        Some (Inr ((Some (?vl ! (r 0 mod length ?vl)), []), s\<lparr>tick := tick s + 1\<rparr>))"
      using MCTS_Search_fallback[OF s(1,2)] choice_nonempty[OF ne, of r s] s(3,4) by simp
    then show ?thesis using s(2) by force
  qed
  have "\<exists>rnd' s. MCTS_Search rnd' uct rd bs a n = Some (Inr ((Some col, []), s))"
    if col: "col \<in> set ?vl" for col
  proof -
    obtain k where k: "k < length ?vl" "?vl ! k = col" using col by (auto simp: in_set_conv_nth)
    from res[of "\<lambda>_. k"] k show ?thesis by auto
  qed
  then show ?thesis using res[of rnd] by blast
qed

text \<open>
  C4. On a board without legal column \<open>MCTS_Search\<close> ends in an error that reaches the
  caller: \<open>random.choice\<close> raises \<open>IndexError\<close> on the empty list of legal columns and
  nothing catches it. (The specification calls this error InvalidState.)
\<close>

theorem no_legal_column_raises:
  assumes a: "a < length bs" and wf: "wf_board (bs ! a)"
    and em: "get_valid_locations (bs ! a) = []"
  shows "MCTS_Search rnd uct rd bs a n = Some (Inl IndexError)"
proof -
  have tm: "is_terminal_node (bs ! a)" using em by (simp add: terminal_iff)
  obtain s where s: "mcts_tree rnd uct bs a n = Some (Inr (0, s))" "children (nodes s ! 0) = []"
      "boards s ! a = bs ! a"
    using terminal_root_result[OF a wf tm, of rnd uct n] by blast
  show ?thesis using MCTS_Search_fallback[OF s(1,2)] s(3) em by (simp add: choice_def)
qed

text \<open>
  C8. The search leaves the heap it was given as it was: every board that existed before
  the call, the caller's board among them, has the same contents when the loop has ended and
  when \<open>MCTS_Search\<close> returns.
\<close>

theorem caller_board_unchanged:
  assumes a: "a < length bs" and wf: "wf_board (bs ! a)"
  shows "(\<exists>s. mcts_tree rnd uct bs a n = Some (Inr (0, s)) \<and> take (length bs) (boards s) = bs)
    \<and> (\<forall>r. MCTS_Search rnd uct rd bs a n = Some (Inr r) \<longrightarrow>
          take (length bs) (boards (snd r)) = bs \<and> boards (snd r) ! a = bs ! a)"
proof -
  obtain s xs where s: "mcts_tree rnd uct bs a n = Some (Inr (0, s))"
      "boards s = bs @ [bs ! a] @ xs"
    using mcts_tree_spec[OF wf, of rnd uct n] by blast
  note c = tree_boards_caller[OF a s(2)]
  have "take (length bs) (boards (snd r)) = bs \<and> boards (snd r) ! a = bs ! a"
    if "MCTS_Search rnd uct rd bs a n = Some (Inr r)" for r
    using MCTS_Search_state[OF s(1) that] c by simp
  then show ?thesis using s(1) c(2) by blast
qed

text \<open>
  C10. On a board that is not terminal \<open>MCTS_Search\<close> returns, the visits of the root's
  children sum to the number of iterations, and every node but the root has
  \<open>visits \<ge> 1\<close>.
\<close>

theorem root_children_visits_sum:
  assumes a: "a < length bs" and wf: "wf_board (bs ! a)"
    and nt: "\<not> is_terminal_node (bs ! a)"
  shows "\<exists>r. MCTS_Search rnd uct rd bs a n = Some (Inr r)
      \<and> root_children_visits (nodes (snd r)) = n
      \<and> (\<forall>i<length (nodes (snd r)). 0 < i \<longrightarrow> 1 \<le> visits (nodes (snd r) ! i))"
proof -
  have ne: "get_valid_locations (bs ! a) \<noteq> []" using nt by (simp add: terminal_iff)
  obtain s col stats s' where r: "mcts_tree rnd uct bs a n = Some (Inr (0, s))"
      "MCTS_Search rnd uct rd bs a n = Some (Inr ((Some col, stats), s'))"
      "nodes s' = nodes s"
    using MCTS_Search_returns[OF a wf ne, of rnd uct n] by blast
  obtain s0 where s0: "mcts_tree rnd uct bs a n = Some (Inr (0, s0))" "tree_inv s0"
      "\<not> is_terminal_node (bs ! a) \<longrightarrow> root_children_visits (nodes s0) = n"
    using mcts_tree_spec[OF wf, of rnd uct n] by blast
  have e: "s0 = s" using r(1) s0(1) by simp
  have "\<forall>i<length (nodes s). 0 < i \<longrightarrow> 1 \<le> visits (nodes s ! i)"
    using tree_invD(6)[of s] s0(2) e by blast
  then show ?thesis using r(2,3) s0(3) nt e by auto
qed

lemma path_nonempty: "path ns i \<noteq> []"
  by (subst path.simps) simp

lemma path_hd: "hd (path ns i) = i"
  by (subst path.simps) simp

lemma path_last_root:
  assumes pb: "parents_below ns"
  shows "i < length ns \<Longrightarrow> parent (ns ! last (path ns i)) = None"
proof (induction i rule: less_induct)
  case (less i)
  show ?case
  proof (cases "parent (ns ! i)")
    case None
    then show ?thesis by (simp add: path.simps[of ns i])
  next
    case (Some p)
    have pi: "p < i" using parents_belowD[OF pb less.prems Some] .
    have "path ns i = i # path ns p" using path_child[OF Some pi] .
    then have "last (path ns i) = last (path ns p)" using path_nonempty[of ns p] by simp
    then show ?thesis using less.IH[OF pi] pi less.prems by simp
  qed
qed

text \<open>
  C6. In an arena where every parent is older than its child, \<open>backpropagate\<close> from node
  \<open>i\<close> returns; it adds 1 to \<open>visits\<close> of exactly the nodes of the parent chain of \<open>i\<close>
  (which starts at \<open>i\<close> and ends at a node without parent), adds 1 to \<open>wins\<close> of exactly
  those nodes of the chain whose \<open>player\<close> is the winner, never to a node without
  \<open>player\<close> (the root) and to none on a draw, and changes nothing else.
\<close>

theorem backpropagate_credits_path:
  assumes pb: "parents_below (nodes s)" and i: "i < length (nodes s)"
  shows "\<exists>s'. backpropagate s (Some i) winner = Some s'
      \<and> boards s' = boards s \<and> tick s' = tick s \<and> length (nodes s') = length (nodes s)
      \<and> hd (path (nodes s) i) = i \<and> parent (nodes s ! last (path (nodes s) i)) = None
      \<and> (\<forall>j<length (nodes s).
           visits (nodes s' ! j)
             = visits (nodes s ! j) + (if j \<in> set (path (nodes s) i) then 1 else 0)
         \<and> wins (nodes s' ! j)
             = wins (nodes s ! j)
               + (if j \<in> set (path (nodes s) i) \<and> winner \<noteq> None
                     \<and> player (nodes s ! j) = winner then 1 else 0)
         \<and> (player (nodes s ! j) = None \<or> winner = None
              \<longrightarrow> wins (nodes s' ! j) = wins (nodes s ! j))
         \<and> board (nodes s' ! j) = board (nodes s ! j)
         \<and> parent (nodes s' ! j) = parent (nodes s ! j)
         \<and> children (nodes s' ! j) = children (nodes s ! j)
         \<and> untried_moves (nodes s' ! j) = untried_moves (nodes s ! j)
         \<and> move (nodes s' ! j) = move (nodes s ! j)
         \<and> player (nodes s' ! j) = player (nodes s ! j))"
proof -
  let ?s' = "s\<lparr>nodes := credit_all winner (path (nodes s) i) (nodes s)\<rparr>"
  have b: "backpropagate s (Some i) winner = Some ?s'" using backpropagate_path[OF pb i] .
  have r: "parent (nodes s ! last (path (nodes s) i)) = None" using path_last_root[OF pb i] .
  show ?thesis
    by (rule exI[of _ ?s']) (auto simp: b r path_hd nth_credit_all)
qed

lemma stat_of_bounds:
  assumes "mono rd" and "rd 0 = 0" and "rd 1 = 1"
    and "wins c \<le> visits c" and "1 \<le> visits c" and "visits c \<le> mx"
  shows "0 \<le> win_rate (stat_of rd mx c) \<and> win_rate (stat_of rd mx c) \<le> 1
     \<and> 0 \<le> visits_ratio (stat_of rd mx c) \<and> visits_ratio (stat_of rd mx c) \<le> 1"
proof -
  have b: "0 \<le> rd x \<and> rd x \<le> 1" if "0 \<le> x" "x \<le> 1" for x
    using monoD[OF assms(1) that(1)] monoD[OF assms(1) that(2)] assms(2,3) by simp
  have w: "0 \<le> real (wins c) / real (visits c)" "real (wins c) / real (visits c) \<le> 1"
    using assms(4,5) by simp_all
  have v: "0 \<le> real (visits c) / real mx" "real (visits c) / real mx \<le> 1"
    using assms(5,6) by simp_all
  show ?thesis using b[OF w] b[OF v] assms(5,6) by (simp add: stat_of_def)
qed

lemma root_has_children:
  assumes "tree_inv s" and "0 < length (nodes s)"
  shows "children (nodes s ! 0) \<noteq> [] \<longleftrightarrow> 0 < root_children_visits (nodes s)"
proof
  assume "children (nodes s ! 0) \<noteq> []"
  then obtain m c cs where cs: "children (nodes s ! 0) = (m, c) # cs" by (cases "children (nodes s ! 0)") auto
  have ts: "tree_struct (nodes s)" using assms(1) by (simp add: tree_inv_def)
  have "(m, c) \<in> set (children (nodes s ! 0))" using cs by simp
  from tree_struct_child[OF ts assms(2) this] have "c < length (nodes s)" "0 < c" by auto
  then have "1 \<le> visits (nodes s ! c)" using tree_invD(6)[OF assms(1)] by blast
  then show "0 < root_children_visits (nodes s)" using cs by (simp add: root_children_visits_def)
next
  assume "0 < root_children_visits (nodes s)"
  then show "children (nodes s ! 0) \<noteq> []" by (auto simp: root_children_visits_def)
qed

text \<open>
  C7. Let the rounding \<open>rd\<close> of Python's division be monotone and leave 0 and 1 as they
  are, as rounding to the nearest binary64 does. On every well-shaped board the loop of
  \<open>MCTS_Search\<close> ends, and the root has a child exactly when the board is not terminal and
  there was at least one iteration. When the root has a child, \<open>MCTS_Search\<close> returns: the
  column is the move of a child of the root whose \<open>visits\<close> no other child exceeds; the
  statistics have one entry per child, keyed by its column, with \<open>win_rate\<close> the rounded
  \<open>wins / visits\<close> and \<open>visits_ratio\<close> the rounded \<open>visits /\<close> the visits of the chosen
  child; every \<open>win_rate\<close> and \<open>visits_ratio\<close> lies between 0 and 1, and the
  \<open>visits_ratio\<close> of the chosen column is 1.
\<close>

theorem most_visited_child_and_statistics:
  assumes a: "a < length bs" and wf: "wf_board (bs ! a)"
    and rd: "mono rd" "rd 0 = 0" "rd 1 = 1"
  shows "\<exists>s. mcts_tree rnd uct bs a n = Some (Inr (0, s))
      \<and> ((children (nodes s ! 0) \<noteq> []) = (\<not> is_terminal_node (bs ! a) \<and> 0 < n))
      \<and> (children (nodes s ! 0) \<noteq> [] \<longrightarrow>
          (\<exists>m c stats. MCTS_Search rnd uct rd bs a n = Some (Inr ((Some m, stats), s))
            \<and> (m, c) \<in> set (children (nodes s ! 0))
            \<and> (\<forall>kc\<in>set (children (nodes s ! 0)).
                  visits (nodes s ! snd kc) \<le> visits (nodes s ! c))
            \<and> map fst stats = map fst (children (nodes s ! 0)) \<and> distinct (map fst stats)
            \<and> (\<forall>kc\<in>set (children (nodes s ! 0)).
                  map_of stats (fst kc) =
                    Some \<lparr>st_visits = visits (nodes s ! snd kc),
                          win_rate =
                            rd (real (wins (nodes s ! snd kc)) / real (visits (nodes s ! snd kc))),
                          visits_ratio =
                            rd (real (visits (nodes s ! snd kc)) / real (visits (nodes s ! c)))\<rparr>)
            \<and> (\<forall>kst\<in>set stats. 0 \<le> win_rate (snd kst) \<and> win_rate (snd kst) \<le> 1
                  \<and> 0 \<le> visits_ratio (snd kst) \<and> visits_ratio (snd kst) \<le> 1)
            \<and> (\<exists>st. map_of stats m = Some st \<and> visits_ratio st = 1)))"
proof -
  obtain s0 where s0: "mcts_tree rnd uct bs a n = Some (Inr (0, s0))" "tree_inv s0"
    and nt: "\<not> is_terminal_node (bs ! a) \<longrightarrow> root_children_visits (nodes s0) = n"
    and tm: "is_terminal_node (bs ! a) \<longrightarrow> children (nodes s0 ! 0) = []"
    using mcts_tree_spec[OF wf, of rnd uct n] by blast
  let ?cs = "children (nodes s0 ! 0)"
  have ts: "tree_struct (nodes s0)" using s0(2) by (simp add: tree_inv_def)
  have z: "0 < length (nodes s0)" using tree_structD(1)[OF ts] by simp
  have iff: "(?cs \<noteq> []) = (\<not> is_terminal_node (bs ! a) \<and> 0 < n)"
    using root_has_children[OF s0(2) z] nt tm by auto
  have main: "\<exists>m c stats. MCTS_Search rnd uct rd bs a n = Some (Inr ((Some m, stats), s0))
            \<and> (m, c) \<in> set ?cs
            \<and> (\<forall>kc\<in>set ?cs. visits (nodes s0 ! snd kc) \<le> visits (nodes s0 ! c))
            \<and> map fst stats = map fst ?cs \<and> distinct (map fst stats)
            \<and> (\<forall>kc\<in>set ?cs.
                  map_of stats (fst kc) =
                    Some \<lparr>st_visits = visits (nodes s0 ! snd kc),
                          win_rate =
                            rd (real (wins (nodes s0 ! snd kc)) / real (visits (nodes s0 ! snd kc))),
                          visits_ratio =
                            rd (real (visits (nodes s0 ! snd kc)) / real (visits (nodes s0 ! c)))\<rparr>)
            \<and> (\<forall>kst\<in>set stats. 0 \<le> win_rate (snd kst) \<and> win_rate (snd kst) \<le> 1
                  \<and> 0 \<le> visits_ratio (snd kst) \<and> visits_ratio (snd kst) \<le> 1)
            \<and> (\<exists>st. map_of stats m = Some st \<and> visits_ratio st = 1)"
    if ch0: "?cs \<noteq> []"
  proof -
    from MCTS_Search_best[OF s0 ch0, of rd]
    obtain m c where mc: "(m, c) \<in> set ?cs"
        "\<forall>kc\<in>set ?cs. visits (nodes s0 ! snd kc) \<le> visits (nodes s0 ! c)"
        "MCTS_Search rnd uct rd bs a n =
            Some (Inr ((Some m,
                        map (\<lambda>(k, c'). (k, stat_of rd (visits (nodes s0 ! c)) (nodes s0 ! c'))) ?cs),
                       s0))"
      by blast
    let ?mx = "visits (nodes s0 ! c)"
    define stats where "stats = map (\<lambda>(k, c'). (k, stat_of rd ?mx (nodes s0 ! c'))) ?cs"
    have ret: "MCTS_Search rnd uct rd bs a n = Some (Inr ((Some m, stats), s0))"
      using mc(3) by (simp add: stats_def)
    have child: "c' < length (nodes s0) \<and> 1 \<le> visits (nodes s0 ! c')
        \<and> wins (nodes s0 ! c') \<le> visits (nodes s0 ! c') \<and> visits (nodes s0 ! c') \<le> ?mx"
      if "(k, c') \<in> set ?cs" for k c'
    proof -
      have l: "c' < length (nodes s0)" "0 < c'" using tree_struct_child[OF ts z that] by auto
      show ?thesis using l tree_invD(5,6)[OF s0(2) l(1)] mc(2) that by force
    qed
    have keys: "map fst stats = map fst ?cs"
      unfolding stats_def by (simp add: case_prod_beta comp_def)
    have dk: "distinct (map fst ?cs)" using tree_invD(3)[OF s0(2) z] by simp
    have sof: "stat_of rd ?mx (nodes s0 ! c') =
        \<lparr>st_visits = visits (nodes s0 ! c'),
         win_rate = rd (real (wins (nodes s0 ! c')) / real (visits (nodes s0 ! c'))),
         visits_ratio = rd (real (visits (nodes s0 ! c')) / real ?mx)\<rparr>"
      if "(k, c') \<in> set ?cs" for k c'
      using child[OF that] child[OF mc(1)] by (simp add: stat_of_def)
    have look: "map_of stats k = Some (stat_of rd ?mx (nodes s0 ! c'))"
      if "(k, c') \<in> set ?cs" for k c'
    proof -
      have "(k, stat_of rd ?mx (nodes s0 ! c')) \<in> set stats"
        unfolding stats_def using that by force
      then show ?thesis using keys dk by (simp add: map_of_is_SomeI)
    qed
    have bounds: "0 \<le> win_rate (snd kst) \<and> win_rate (snd kst) \<le> 1
              \<and> 0 \<le> visits_ratio (snd kst) \<and> visits_ratio (snd kst) \<le> 1"
      if kin: "kst \<in> set stats" for kst
    proof -
      obtain k c' where kc: "(k, c') \<in> set ?cs" "kst = (k, stat_of rd ?mx (nodes s0 ! c'))"
        using kin unfolding stats_def by auto
      show ?thesis
        using stat_of_bounds[OF rd, of "nodes s0 ! c'" ?mx] child[OF kc(1)] kc(2) by simp
    qed
    have best: "\<exists>st. map_of stats m = Some st \<and> visits_ratio st = 1"
      using look[OF mc(1)] child[OF mc(1)] rd(3) by (simp add: stat_of_def)
    have all: "\<forall>kc\<in>set ?cs. map_of stats (fst kc) =
                Some \<lparr>st_visits = visits (nodes s0 ! snd kc),
                      win_rate =
                        rd (real (wins (nodes s0 ! snd kc)) / real (visits (nodes s0 ! snd kc))),
                      visits_ratio = rd (real (visits (nodes s0 ! snd kc)) / real ?mx)\<rparr>"
    proof
      fix kc assume "kc \<in> set ?cs"
      then have "(fst kc, snd kc) \<in> set ?cs" by simp
      from look[OF this] sof[OF this] show "map_of stats (fst kc) =
                Some \<lparr>st_visits = visits (nodes s0 ! snd kc),
                      win_rate =
                        rd (real (wins (nodes s0 ! snd kc)) / real (visits (nodes s0 ! snd kc))),
                      visits_ratio = rd (real (visits (nodes s0 ! snd kc)) / real ?mx)\<rparr>"
        by simp
    qed
    show ?thesis
      using ret mc(1,2) keys dk all bounds best
      by (intro exI[of _ m] exI[of _ c] exI[of _ stats]) simp
  qed
  show ?thesis using s0(1) iff main by (intro exI[of _ s0]) simp
qed

lemma expand_child_board:
  fixes rnd :: "nat \<Rightarrow> nat"
  assumes i: "i < length (nodes s)" and bl: "board (nodes s ! i) < length (boards s)"
    and wf: "wf_board (bof s i)"
    and sub: "set (untried_moves (nodes s ! i)) \<subseteq> set (get_valid_locations (bof s i))"
    and ex: "expand rnd s i = Inr (c, s')"
  shows "\<exists>mv r pc. mv < COLUMN_COUNT \<and> get_next_open_row (bof s i) mv = Some r
      \<and> c = length (nodes s) \<and> c < length (nodes s')
      \<and> bof s' c = set_cell (bof s i) r mv pc
      \<and> (gravity (bof s i) \<longrightarrow> gravity (bof s' c))"
proof -
  let ?n = "nodes s ! i"
  let ?b = "bof s i"
  have un: "untried_moves ?n \<noteq> []" using ex by (auto simp: expand_def choice_def split: if_splits)
  define mv where "mv = untried_moves ?n ! (rnd (tick s) mod length (untried_moves ?n))"
  have mvin: "mv \<in> set (untried_moves ?n)" unfolding mv_def using un by simp
  then have "mv \<in> set (get_valid_locations ?b)" using sub by auto
  then have mvc: "mv < COLUMN_COUNT" and top: "?b ! (ROW_COUNT - 1) ! mv = 0"
    using valid_location_facts by auto
  obtain r where r: "get_next_open_row ?b mv = Some r" "r < ROW_COUNT" "?b ! r ! mv = 0"
    "\<forall>r'<r. ?b ! r' ! mv \<noteq> 0"
    using next_open_row_Some[OF top] by blast
  define pc where "pc = (if count_pieces ?b mod 2 = 0 then AI_PIECE else PLAYER_PIECE)"
  have rl: "r < length ?b" "mv < length (?b ! r)"
    using wf r(2) mvc by (simp_all add: wf_board_length wf_board_row)
  have bb: "boards s ! board ?n = ?b" by (simp add: bof_def)
  have e: "expand rnd s i = Inr (length (nodes s),
          \<lparr>boards = boards s @ [set_cell ?b r mv pc],
           nodes = (nodes s)[i := ?n\<lparr>untried_moves := remove1 mv (untried_moves ?n),
                                    children := AList.update mv (length (nodes s)) (children ?n)\<rparr>]
              @ [child_node (length (boards s)) i (set_cell ?b r mv pc) mv pc],
           tick = tick s + 1\<rparr>)"
    unfolding expand_def choice_nonempty[OF un] mv_def[symmetric]
    using r(1) rl i bl bb pc_def
    by (cases s)
      (simp add: copy_board_def Let_def nth_append drop_piece_Some Node_def
        child_node_def nth_list_update list_update_append1)
  have c: "c = length (nodes s)" and s': "s' = \<lparr>boards = boards s @ [set_cell ?b r mv pc],
           nodes = (nodes s)[i := ?n\<lparr>untried_moves := remove1 mv (untried_moves ?n),
                                    children := AList.update mv (length (nodes s)) (children ?n)\<rparr>]
              @ [child_node (length (boards s)) i (set_cell ?b r mv pc) mv pc],
           tick = tick s + 1\<rparr>"
    using ex e by auto
  have bc: "bof s' c = set_cell ?b r mv pc"
    unfolding c s' by (simp add: bof_def nth_append)
  have g: "gravity ?b \<longrightarrow> gravity (set_cell ?b r mv pc)"
    using gravity_set_cell[OF wf _ mvc r(2,3,4)] by simp
  have "c < length (nodes s')" unfolding c s' by simp
  then show ?thesis using mvc r(1) c bc g by auto
qed

lemma playout_step_gravity:
  assumes b: "b < length (boards s)" and wf: "wf_board (boards s ! b)"
    and g: "gravity (boards s ! b)"
    and st: "playout_step rnd s b np = Inr (Inr (s2, np2))"
  shows "gravity (boards s2 ! b) \<and> wf_board (boards s2 ! b)"
proof (cases "is_terminal_node (boards s ! b)")
  case True
  then show ?thesis using playout_step_terminal[OF True, of rnd np] st by auto
next
  case False
  obtain mv r where m: "mv < COLUMN_COUNT" "r < ROW_COUNT"
      "boards s ! b ! r ! mv = 0" "\<forall>r'<r. boards s ! b ! r' ! mv \<noteq> 0"
      "playout_step rnd s b np =
          Inr (Inr (s\<lparr>tick := tick s + 1,
                      boards := (boards s)[b := set_cell (boards s ! b) r mv np]\<rparr>,
                    if np = AI_PIECE then PLAYER_PIECE else AI_PIECE))"
    using playout_step_move[OF wf False, of rnd np] by blast
  have "boards s2 ! b = set_cell (boards s ! b) r mv np" using st m(5) b by auto
  then show ?thesis using gravity_set_cell[OF wf g m(1,2,3,4)] wf_set_cell[OF wf] by simp
qed

text \<open>
  C9. From a gravity-packed board, every board of every node of the tree and every board
  that the search allocated is gravity-packed when the loop has ended; and so is the board of
  the child that one expansion of a gravity-packed node makes, and the working board after
  one step of a rollout on a gravity-packed board.
\<close>

theorem gravity_packed_preserved:
  assumes a: "a < length bs" and wf: "wf_board (bs ! a)" and g: "gravity (bs ! a)"
  shows "(\<exists>s. mcts_tree rnd uct bs a n = Some (Inr (0, s))
          \<and> (\<forall>i<length (nodes s). gravity (bof s i))
          \<and> (\<forall>k<length (boards s). length bs \<le> k \<longrightarrow> gravity (boards s ! k)))
    \<and> (\<forall>s i c s'. i < length (nodes s) \<and> board (nodes s ! i) < length (boards s)
          \<and> wf_board (bof s i) \<and> gravity (bof s i)
          \<and> set (untried_moves (nodes s ! i)) \<subseteq> set (get_valid_locations (bof s i))
          \<and> expand rnd s i = Inr (c, s')
          \<longrightarrow> gravity (bof s' c))
    \<and> (\<forall>s b np s2 np2. b < length (boards s) \<and> wf_board (boards s ! b)
          \<and> gravity (boards s ! b) \<and> playout_step rnd s b np = Inr (Inr (s2, np2))
          \<longrightarrow> gravity (boards s2 ! b))"
proof (intro conjI allI impI)
  obtain s xs where s: "mcts_tree rnd uct bs a n = Some (Inr (0, s))"
      "boards s = bs @ [bs ! a] @ xs" "gravity (bs ! a) \<longrightarrow> list_all gravity xs"
      "gravity (bs ! a) \<longrightarrow> node_gravity s"
    using mcts_tree_spec[OF wf, of rnd uct n] by blast
  have ng: "\<forall>i<length (nodes s). gravity (bof s i)" using s(4) g by (simp add: node_gravity_def)
  have "list_all gravity ([bs ! a] @ xs)" using s(3) g by simp
  then have "\<forall>k<length (boards s). length bs \<le> k \<longrightarrow> gravity (boards s ! k)"
    unfolding s(2) by (auto simp: nth_append list_all_length)
  then show "\<exists>s. mcts_tree rnd uct bs a n = Some (Inr (0, s))
          \<and> (\<forall>i<length (nodes s). gravity (bof s i))
          \<and> (\<forall>k<length (boards s). length bs \<le> k \<longrightarrow> gravity (boards s ! k))"
    using s(1) ng by blast
next
  fix s i c s'
  assume h: "i < length (nodes s) \<and> board (nodes s ! i) < length (boards s)
          \<and> wf_board (bof s i) \<and> gravity (bof s i)
          \<and> set (untried_moves (nodes s ! i)) \<subseteq> set (get_valid_locations (bof s i))
          \<and> expand rnd s i = Inr (c, s')"
  then show "gravity (bof s' c)"
    using expand_child_board[of i s rnd c s'] by blast
next
  fix s b np s2 np2
  assume "b < length (boards s) \<and> wf_board (boards s ! b)
          \<and> gravity (boards s ! b) \<and> playout_step rnd s b np = Inr (Inr (s2, np2))"
  then show "gravity (boards s2 ! b)" using playout_step_gravity[of b s rnd np s2 np2] by blast
qed

section \<open>An example search\<close>

lemma example_heap: "0 < length [board_late]" "wf_board ([board_late] ! 0)"
  "gravity ([board_late] ! 0)" "\<not> is_terminal_node ([board_late] ! 0)"
  "get_valid_locations ([board_late] ! 0) \<noteq> []"
  by code_simp+

text \<open>
  The example rounding is monotone, leaves 0 and 1 as they are, and does round: 2/3 becomes
  the binary64 number that Python prints as 0.6666666666666666.
\<close>

lemma example_round_facts:
  "mono example_round" "example_round 0 = 0" "example_round 1 = 1"
  "example_round (2 / 3) = 6004799503160661 / 9007199254740992"
proof -
  show "mono example_round"
  proof (rule monoI)
    fix x y :: real
    assume "x \<le> y"
    then have "round (x * 2 ^ 53) \<le> round (y * 2 ^ 53)"
      by (intro round_mono mult_right_mono) simp_all
    then show "example_round x \<le> example_round y"
      by (simp add: example_round_def divide_right_mono)
  qed
  show "example_round 0 = 0" by (simp add: example_round_def)
  show "example_round 1 = 1" by (simp add: example_round_def)
  show "example_round (2 / 3) = 6004799503160661 / 9007199254740992" by code_simp
qed

lemma example_eval:
  "(let x = MCTS_Search example_draws example_score example_round [board_late] 0 4 in
     case x of
       Some (Inr r) \<Rightarrow>
         fst (fst r) = Some 6
         \<and> map fst (snd (fst r)) = [6, 5]
         \<and> map (\<lambda>kst. st_visits (snd kst)) (snd (fst r)) = [2, 2]
         \<and> map (\<lambda>kst. win_rate (snd kst)) (snd (fst r)) = [1 / 2, 1]
         \<and> map (\<lambda>kst. visits_ratio (snd kst)) (snd (fst r)) = [1, 1]
         \<and> map visits (nodes (snd r)) = [4, 2, 2, 1]
         \<and> map wins (nodes (snd r)) = [0, 1, 2, 1]
         \<and> children (nodes (snd r) ! 0) = [(6, 1), (5, 2)]
         \<and> root_children_visits (nodes (snd r)) = 4
         \<and> take (length [board_late]) (boards (snd r)) = [board_late]
         \<and> list_all gravity (boards (snd r))
     | _ \<Rightarrow> False)"
  by code_simp

lemma example_run:
  "MCTS_Search example_draws example_score example_round [board_late] 0 4 = Some (Inr example_result)"
  using example_eval unfolding example_result_def Let_def
  by (auto split: option.splits sum.splits)

lemma example_result_values:
  "fst (fst example_result) = Some 6"
  "map fst (snd (fst example_result)) = [6, 5]"
  "map (\<lambda>kst. st_visits (snd kst)) (snd (fst example_result)) = [2, 2]"
  "map (\<lambda>kst. win_rate (snd kst)) (snd (fst example_result)) = [1 / 2, 1]"
  "map (\<lambda>kst. visits_ratio (snd kst)) (snd (fst example_result)) = [1, 1]"
  "map visits (nodes (snd example_result)) = [4, 2, 2, 1]"
  "map wins (nodes (snd example_result)) = [0, 1, 2, 1]"
  "children (nodes (snd example_result) ! 0) = [(6, 1), (5, 2)]"
  "root_children_visits (nodes (snd example_result)) = 4"
  "take (length [board_late]) (boards (snd example_result)) = [board_late]"
  "list_all gravity (boards (snd example_result))"
  using example_eval unfolding example_run Let_def by simp_all

text \<open>
  C1, on the example: four iterations on \<open>board_late\<close>.
\<close>

theorem root_visits_equal_iterations_witness:
  "0 < length [board_late] \<and> wf_board ([board_late] ! 0)
   \<and> (\<exists>s. mcts_tree example_draws example_score [board_late] 0 4 = Some (Inr (0, s))
          \<and> parent (nodes s ! 0) = None \<and> visits (nodes s ! 0) = 4)
   \<and> MCTS_Search example_draws example_score example_round [board_late] 0 4 = Some (Inr example_result)
   \<and> visits (nodes (snd example_result) ! 0) = 4"
  using root_visits_equal_iterations
      [where rnd = example_draws and uct = example_score and rd = example_round and n = 4,
       OF example_heap(1,2)]
    example_heap(1,2) example_run
  by blast

text \<open>
  C2, on the example.
\<close>

theorem search_returns_legal_column_witness:
  "0 < length [board_late] \<and> wf_board ([board_late] ! 0)
   \<and> get_valid_locations ([board_late] ! 0) \<noteq> []
   \<and> (\<exists>col stats s.
         MCTS_Search example_draws example_score example_round [board_late] 0 4
           = Some (Inr ((Some col, stats), s))
         \<and> col \<in> set (get_valid_locations ([board_late] ! 0)))
   \<and> fst (fst example_result) = Some 6 \<and> get_valid_locations board_late = [5, 6]"
proof -
  have v: "get_valid_locations board_late = [5, 6]" by code_simp
  show ?thesis
    using search_returns_legal_column
      [where rnd = example_draws and uct = example_score and rd = example_round and n = 4,
       OF example_heap(1,2,5)]
      example_heap(1,2,5) example_result_values(1) v
    by blast
qed

lemma won_heap: "0 < length [board_horizontal]" "wf_board ([board_horizontal] ! 0)"
  "is_terminal_node ([board_horizontal] ! 0)"
  "get_valid_locations ([board_horizontal] ! 0) \<noteq> []"
  "3 \<in> set (get_valid_locations ([board_horizontal] ! 0))"
  "get_valid_locations ([board_horizontal] ! 0)
     ! (example_draws 0 mod length (get_valid_locations ([board_horizontal] ! 0))) = 1"
  by code_simp+

text \<open>
  C3, on a board where the player has already four in a row.
\<close>

theorem terminal_root_random_fallback_witness:
  "0 < length [board_horizontal] \<and> wf_board ([board_horizontal] ! 0)
   \<and> is_terminal_node ([board_horizontal] ! 0)
   \<and> get_valid_locations ([board_horizontal] ! 0) \<noteq> []
   \<and> (\<exists>s. MCTS_Search example_draws example_score example_round [board_horizontal] 0 4
            = Some (Inr ((Some 1, []), s)) \<and> children (nodes s ! 0) = [])
   \<and> 3 \<in> set (get_valid_locations ([board_horizontal] ! 0))
   \<and> (\<exists>rnd' s. MCTS_Search rnd' example_score example_round [board_horizontal] 0 4
          = Some (Inr ((Some 3, []), s)))"
proof -
  note t = terminal_root_random_fallback
      [where rnd = example_draws and uct = example_score and rd = example_round and n = 4,
       OF won_heap(1,2,3,4)]
  have 1: "\<exists>s. MCTS_Search example_draws example_score example_round [board_horizontal] 0 4
            = Some (Inr ((Some 1, []), s)) \<and> children (nodes s ! 0) = []"
    using t won_heap(6) by simp
  have 2: "\<exists>rnd' s. MCTS_Search rnd' example_score example_round [board_horizontal] 0 4
          = Some (Inr ((Some 3, []), s))"
    using t won_heap(5) by blast
  show ?thesis using won_heap(1-5) 1 2 by blast
qed

lemma full_heap: "0 < length [board_full]" "wf_board ([board_full] ! 0)"
  "get_valid_locations ([board_full] ! 0) = []"
  by code_simp+

text \<open>
  C4, on a full board.
\<close>

theorem no_legal_column_raises_witness:
  "0 < length [board_full] \<and> wf_board ([board_full] ! 0)
   \<and> get_valid_locations ([board_full] ! 0) = []
   \<and> MCTS_Search example_draws example_score example_round [board_full] 0 4 = Some (Inl IndexError)"
  using no_legal_column_raises
      [where rnd = example_draws and uct = example_score and rd = example_round and n = 4,
       OF full_heap] full_heap
  by blast

lemma example_tree_facts:
  "parents_below (nodes example_tree)" "2 < length (nodes example_tree)"
  "path (nodes example_tree) 2 = [2, 1, 0]"
  "length (nodes example_tree) = 4"
  "map visits (nodes example_tree) = [0, 0, 0, 0]"
  "map wins (nodes example_tree) = [0, 0, 0, 0]"
  by code_simp+

lemma example_tree_nodes:
  "visits (nodes example_tree ! 0) = 0" "visits (nodes example_tree ! 1) = 0"
  "visits (nodes example_tree ! 2) = 0" "visits (nodes example_tree ! 3) = 0"
  "wins (nodes example_tree ! 0) = 0" "wins (nodes example_tree ! 1) = 0"
  "wins (nodes example_tree ! 2) = 0" "wins (nodes example_tree ! 3) = 0"
  "player (nodes example_tree ! 0) = None" "player (nodes example_tree ! 1) = Some AI_PIECE"
  "player (nodes example_tree ! 2) = Some PLAYER_PIECE"
  "player (nodes example_tree ! 3) = Some AI_PIECE"
  by code_simp+

text \<open>
  C6, on the example tree.
\<close>

theorem backpropagate_credits_path_witness:
  "parents_below (nodes example_tree) \<and> 2 < length (nodes example_tree)
   \<and> path (nodes example_tree) 2 = [2, 1, 0]
   \<and> (\<exists>s'. backpropagate example_tree (Some 2) (Some AI_PIECE) = Some s'
         \<and> visits (nodes s' ! 0) = 1 \<and> visits (nodes s' ! 1) = 1 \<and> visits (nodes s' ! 2) = 1
         \<and> visits (nodes s' ! 3) = 0
         \<and> wins (nodes s' ! 0) = 0 \<and> wins (nodes s' ! 1) = 1 \<and> wins (nodes s' ! 2) = 0
         \<and> wins (nodes s' ! 3) = 0)
   \<and> (\<exists>s'. backpropagate example_tree (Some 2) None = Some s'
         \<and> visits (nodes s' ! 0) = 1 \<and> visits (nodes s' ! 1) = 1 \<and> visits (nodes s' ! 2) = 1
         \<and> wins (nodes s' ! 0) = 0 \<and> wins (nodes s' ! 1) = 0 \<and> wins (nodes s' ! 2) = 0)"
proof -
  note f = example_tree_facts
  note n = example_tree_nodes
  have pc: "AI_PIECE \<noteq> PLAYER_PIECE" by (simp add: AI_PIECE_def PLAYER_PIECE_def)
  obtain s1 where s1: "backpropagate example_tree (Some 2) (Some AI_PIECE) = Some s1"
    and a1: "\<forall>j<length (nodes example_tree).
           visits (nodes s1 ! j)
             = visits (nodes example_tree ! j)
               + (if j \<in> set (path (nodes example_tree) 2) then 1 else 0)
         \<and> wins (nodes s1 ! j)
             = wins (nodes example_tree ! j)
               + (if j \<in> set (path (nodes example_tree) 2) \<and> Some AI_PIECE \<noteq> None
                     \<and> player (nodes example_tree ! j) = Some AI_PIECE then 1 else 0)"
    using backpropagate_credits_path [OF f(1,2), of "Some AI_PIECE"] by blast
  obtain s2 where s2: "backpropagate example_tree (Some 2) None = Some s2"
    and a2: "\<forall>j<length (nodes example_tree).
           visits (nodes s2 ! j)
             = visits (nodes example_tree ! j)
               + (if j \<in> set (path (nodes example_tree) 2) then 1 else 0)
         \<and> wins (nodes s2 ! j)
             = wins (nodes example_tree ! j)
               + (if j \<in> set (path (nodes example_tree) 2) \<and> (None :: int option) \<noteq> None
                     \<and> player (nodes example_tree ! j) = None then 1 else 0)"
    using backpropagate_credits_path [OF f(1,2), of None] by blast
  have r1: "visits (nodes s1 ! 0) = 1 \<and> visits (nodes s1 ! 1) = 1 \<and> visits (nodes s1 ! 2) = 1
         \<and> visits (nodes s1 ! 3) = 0
         \<and> wins (nodes s1 ! 0) = 0 \<and> wins (nodes s1 ! 1) = 1 \<and> wins (nodes s1 ! 2) = 0
         \<and> wins (nodes s1 ! 3) = 0"
    using a1[rule_format, of 0] a1[rule_format, of 1] a1[rule_format, of 2] a1[rule_format, of 3] pc
    by (simp add: f(3,4) n n[unfolded One_nat_def])
  have r2: "visits (nodes s2 ! 0) = 1 \<and> visits (nodes s2 ! 1) = 1 \<and> visits (nodes s2 ! 2) = 1
         \<and> wins (nodes s2 ! 0) = 0 \<and> wins (nodes s2 ! 1) = 0 \<and> wins (nodes s2 ! 2) = 0"
    using a2[rule_format, of 0] a2[rule_format, of 1] a2[rule_format, of 2]
    by (simp add: f(3,4) n n[unfolded One_nat_def])
  show ?thesis using f(1,2,3) s1 r1 s2 r2 by blast
qed

text \<open>
  C7, on the example: both children have two visits, the first one is chosen although the
  second has the better win rate.
\<close>

theorem most_visited_child_and_statistics_witness:
  "0 < length [board_late] \<and> wf_board ([board_late] ! 0)
   \<and> mono example_round \<and> example_round 0 = 0 \<and> example_round 1 = 1
   \<and> (\<exists>s. mcts_tree example_draws example_score [board_late] 0 4 = Some (Inr (0, s))
         \<and> children (nodes s ! 0) \<noteq> []
         \<and> (\<exists>m c stats.
               MCTS_Search example_draws example_score example_round [board_late] 0 4
                 = Some (Inr ((Some m, stats), s))
               \<and> (m, c) \<in> set (children (nodes s ! 0))
               \<and> map fst stats = map fst (children (nodes s ! 0))
               \<and> distinct (map fst stats)
               \<and> (\<exists>st. map_of stats m = Some st \<and> visits_ratio st = 1)))
   \<and> MCTS_Search example_draws example_score example_round [board_late] 0 4
        = Some (Inr example_result)
   \<and> fst (fst example_result) = Some 6
   \<and> map fst (snd (fst example_result)) = [6, 5]
   \<and> map (\<lambda>kst. st_visits (snd kst)) (snd (fst example_result)) = [2, 2]
   \<and> map (\<lambda>kst. win_rate (snd kst)) (snd (fst example_result)) = [1 / 2, 1]
   \<and> map (\<lambda>kst. visits_ratio (snd kst)) (snd (fst example_result)) = [1, 1]"
proof -
  note v = example_result_values
  note r = example_round_facts
  obtain s where s: "mcts_tree example_draws example_score [board_late] 0 4 = Some (Inr (0, s))"
    and iff: "(children (nodes s ! 0) \<noteq> []) = (\<not> is_terminal_node ([board_late] ! 0) \<and> 0 < (4 :: nat))"
    and imp: "children (nodes s ! 0) \<noteq> [] \<longrightarrow>
        (\<exists>m c stats.
           MCTS_Search example_draws example_score example_round [board_late] 0 4
             = Some (Inr ((Some m, stats), s))
           \<and> (m, c) \<in> set (children (nodes s ! 0))
           \<and> map fst stats = map fst (children (nodes s ! 0))
           \<and> distinct (map fst stats)
           \<and> (\<exists>st. map_of stats m = Some st \<and> visits_ratio st = 1))"
    using most_visited_child_and_statistics
      [where rnd = example_draws and uct = example_score and rd = example_round and n = 4,
       OF example_heap(1,2) r(1,2,3)]
    by blast
  have ch: "children (nodes s ! 0) \<noteq> []" using iff example_heap(4) by simp
  have 1: "\<exists>s. mcts_tree example_draws example_score [board_late] 0 4 = Some (Inr (0, s))
         \<and> children (nodes s ! 0) \<noteq> []
         \<and> (\<exists>m c stats.
               MCTS_Search example_draws example_score example_round [board_late] 0 4
                 = Some (Inr ((Some m, stats), s))
               \<and> (m, c) \<in> set (children (nodes s ! 0))
               \<and> map fst stats = map fst (children (nodes s ! 0))
               \<and> distinct (map fst stats)
               \<and> (\<exists>st. map_of stats m = Some st \<and> visits_ratio st = 1))"
    using s ch imp by blast
  show ?thesis using example_heap(1,2) r(1,2,3) 1 example_run v(1-5) by blast
qed

text \<open>
  C8, on the example.
\<close>

theorem caller_board_unchanged_witness:
  "0 < length [board_late] \<and> wf_board ([board_late] ! 0)
   \<and> (\<exists>s. mcts_tree example_draws example_score [board_late] 0 4 = Some (Inr (0, s))
          \<and> take (length [board_late]) (boards s) = [board_late])
   \<and> MCTS_Search example_draws example_score example_round [board_late] 0 4 = Some (Inr example_result)
   \<and> take (length [board_late]) (boards (snd example_result)) = [board_late]
   \<and> boards (snd example_result) ! 0 = [board_late] ! 0"
  using caller_board_unchanged
      [where rnd = example_draws and uct = example_score and rd = example_round and n = 4,
       OF example_heap(1,2)]
    example_heap(1,2) example_run
  by blast

text \<open>
  C10, on the example.
\<close>

theorem root_children_visits_sum_witness:
  "0 < length [board_late] \<and> wf_board ([board_late] ! 0)
   \<and> \<not> is_terminal_node ([board_late] ! 0)
   \<and> (\<exists>r. MCTS_Search example_draws example_score example_round [board_late] 0 4 = Some (Inr r)
         \<and> root_children_visits (nodes (snd r)) = 4
         \<and> (\<forall>i<length (nodes (snd r)). 0 < i \<longrightarrow> 1 \<le> visits (nodes (snd r) ! i)))
   \<and> map visits (nodes (snd example_result)) = [4, 2, 2, 1]
   \<and> children (nodes (snd example_result) ! 0) = [(6, 1), (5, 2)]"
  using root_children_visits_sum
      [where rnd = example_draws and uct = example_score and rd = example_round and n = 4,
       OF example_heap(1,2,4)]
    example_heap(1,2,4) example_result_values(6,8)
  by blast

lemma example_expand_facts:
  "0 < length (nodes (init_state [board_late] 0))"
  "board (nodes (init_state [board_late] 0) ! 0) < length (boards (init_state [board_late] 0))"
  "wf_board (bof (init_state [board_late] 0) 0)"
  "gravity (bof (init_state [board_late] 0) 0)"
  "set (untried_moves (nodes (init_state [board_late] 0) ! 0))
     \<subseteq> set (get_valid_locations (bof (init_state [board_late] 0) 0))"
  "1 < length (boards (init_state [board_late] 0))"
  "wf_board (boards (init_state [board_late] 0) ! 1)"
  "gravity (boards (init_state [board_late] 0) ! 1)"
  by code_simp+

lemma example_expand_eval:
  "(let x = expand example_draws (init_state [board_late] 0) 0 in
      case x of Inr r \<Rightarrow> fst r = 1 \<and> bof (snd r) 1 ! 2 ! 6 = 1 | Inl e \<Rightarrow> False)"
  by code_simp

lemma example_step_eval:
  "(let x = playout_step example_draws (init_state [board_late] 0) 1 PLAYER_PIECE in
      case x of Inr (Inr r) \<Rightarrow> boards (fst r) ! 1 ! 2 ! 6 = 1 \<and> snd r = AI_PIECE | _ \<Rightarrow> False)"
  by code_simp

lemma example_expand_run:
  "expand example_draws (init_state [board_late] 0) 0
     = Inr (fst example_expand, snd example_expand)"
  using example_expand_eval unfolding example_expand_def Let_def by (auto split: sum.splits)

lemma example_step_run:
  "playout_step example_draws (init_state [board_late] 0) 1 PLAYER_PIECE
     = Inr (Inr (fst example_step, snd example_step))"
  using example_step_eval unfolding example_step_def Let_def by (auto split: sum.splits)

text \<open>
  C9, on the example: the tree after four iterations, one expansion of the root, and one
  step of a rollout.
\<close>

theorem gravity_packed_preserved_witness:
  "0 < length [board_late] \<and> wf_board ([board_late] ! 0) \<and> gravity ([board_late] ! 0)
   \<and> (\<exists>s. mcts_tree example_draws example_score [board_late] 0 4 = Some (Inr (0, s))
          \<and> (\<forall>i<length (nodes s). gravity (bof s i))
          \<and> (\<forall>k<length (boards s). length [board_late] \<le> k \<longrightarrow> gravity (boards s ! k)))
   \<and> expand example_draws (init_state [board_late] 0) 0
        = Inr (fst example_expand, snd example_expand)
   \<and> gravity (bof (snd example_expand) (fst example_expand))
   \<and> playout_step example_draws (init_state [board_late] 0) 1 PLAYER_PIECE
        = Inr (Inr (fst example_step, snd example_step))
   \<and> gravity (boards (fst example_step) ! 1)
   \<and> list_all gravity (boards (snd example_result))"
proof -
  note t = gravity_packed_preserved [OF example_heap(1,2,3), of example_draws example_score 4]
  note e = example_expand_facts
  have 1: "\<exists>s. mcts_tree example_draws example_score [board_late] 0 4 = Some (Inr (0, s))
          \<and> (\<forall>i<length (nodes s). gravity (bof s i))
          \<and> (\<forall>k<length (boards s). length [board_late] \<le> k \<longrightarrow> gravity (boards s ! k))"
    using t by blast
  have 2: "gravity (bof (snd example_expand) (fst example_expand))"
    by (rule t[THEN conjunct2, THEN conjunct1, rule_format,
          of 0 "init_state [board_late] 0" "fst example_expand" "snd example_expand"])
       (use e(1-5) example_expand_run in blast)
  have 3: "gravity (boards (fst example_step) ! 1)"
    by (rule t[THEN conjunct2, THEN conjunct2, rule_format,
          of 1 "init_state [board_late] 0" PLAYER_PIECE "fst example_step" "snd example_step"])
       (use e(6-8) example_step_run in blast)
  show ?thesis
    using example_heap(1,2,3) 1 example_expand_run 2 example_step_run 3 example_result_values(11)
    by blast
qed

end
